theory Spec2Isabelle
  imports Main "HOL-Library.Word"
begin

unbundle bit_operations_syntax

section \<open>Android File Transfer: the transfer engine\<close>

text \<open>
  The development follows the three layers of the application.
  \<^item> The main process (main.js) registers the IPC handlers \<open>push-file\<close>, \<open>pull-file\<close>,
    \<open>create-directory\<close> and \<open>delete-item\<close> on top of the bridge client (adbkit).
  \<^item> The renderer module transferOperations.js calls \<open>ipcRenderer.invoke\<close> and the local
    file system, and keeps the counters of a transfer.
  \<^item> The renderer script (renderer.js) owns the application state and the two transfer
    buttons.
  The bridge client, Node's \<open>fs\<close> and \<open>path\<close> modules and the DOM are not code of the
  repository: their answers are parameters of the model.  Every call with an effect is
  written to a trace of events, in the order in which the code makes it.
\<close>

subsection \<open>Promises and IPC results\<close>

type_synonym path = string

text \<open>A settled promise: resolved with a value, or rejected with an \<open>Error\<close> whose
  \<open>message\<close> is the string.\<close>

datatype 'a promise = Resolved 'a | Rejected string

text \<open>The object returned by the main-process handlers:
  \<open>{ success: true }\<close> or \<open>{ success: false, error: err.message }\<close>.\<close>

record ipc_result =
  success :: bool
  error :: "string option"

subsection \<open>Main process: the IPC handlers (main.js)\<close>

text \<open>What a call of the bridge client does, as far as the handlers can tell and beyond.
  \<open>Rejects m\<close>: the promise the handler awaits rejects with an error of message \<open>m\<close>.
  \<open>Completes\<close>: the promise resolves and the operation is carried out.
  \<open>FailsLater m\<close>: the promise resolves and the bridge reports the failure \<open>m\<close> afterwards,
  where no handler listens: as an \<open>error\<close> event of the transfer that \<open>push\<close> or \<open>pull\<close>
  resolved with, or in the output of the shell command.\<close>

datatype bridge_outcome = Rejects string | Completes | FailsLater string

text \<open>The bridge client (adbkit).  \<open>writeStream\<close> is the outcome of piping a pulled
  transfer into \<open>fs.createWriteStream(localPath)\<close>: the \<open>finish\<close> event (\<open>None\<close>) or the
  \<open>error\<close> event (\<open>Some m\<close>) of the write stream, the two events the handler listens
  to.\<close>

record client =
  push :: "string \<Rightarrow> path \<Rightarrow> path \<Rightarrow> bridge_outcome"
  pull :: "string \<Rightarrow> path \<Rightarrow> bridge_outcome"
  writeStream :: "path \<Rightarrow> string option"
  shell :: "string \<Rightarrow> string \<Rightarrow> bridge_outcome"

definition ok_result :: ipc_result where
  "ok_result = \<lparr>success = True, error = None\<rparr>"

definition failed_result :: "string \<Rightarrow> ipc_result" where
  "failed_result m = \<lparr>success = False, error = Some m\<rparr>"

text \<open>\<open>pull-file\<close>: awaits \<open>client.pull\<close>, pipes the transfer into the write stream and
  settles on the write stream's \<open>finish\<close> or \<open>error\<close>; the transfer's own \<open>error\<close>
  event has no listener.\<close>

definition pull_file_handler :: "client \<Rightarrow> string \<Rightarrow> path \<Rightarrow> path \<Rightarrow> ipc_result promise" where
  "pull_file_handler c deviceId remotePath localPath =
     (let piped = (case writeStream c localPath of
                     Some m \<Rightarrow> Resolved (failed_result m)
                   | None \<Rightarrow> Resolved ok_result)
      in case pull c deviceId remotePath of
           Rejects m \<Rightarrow> Resolved (failed_result m)
         | Completes \<Rightarrow> piped
         | FailsLater m \<Rightarrow> piped)"

text \<open>\<open>push-file\<close>: awaits \<open>client.push\<close> and drops the transfer it resolves with.\<close>

definition push_file_handler :: "client \<Rightarrow> string \<Rightarrow> path \<Rightarrow> path \<Rightarrow> ipc_result promise" where
  "push_file_handler c deviceId localPath remotePath =
     (case push c deviceId localPath remotePath of
        Rejects m \<Rightarrow> Resolved (failed_result m)
      | Completes \<Rightarrow> Resolved ok_result
      | FailsLater m \<Rightarrow> Resolved ok_result)"

text \<open>\<open>create-directory\<close> and \<open>delete-item\<close>: await \<open>client.shell\<close> and do not read
  the output of the command.\<close>

definition create_directory_handler :: "client \<Rightarrow> string \<Rightarrow> path \<Rightarrow> ipc_result promise" where
  "create_directory_handler c deviceId p =
     (case shell c deviceId (''mkdir -p \"'' @ p @ ''\"'') of
        Rejects m \<Rightarrow> Resolved (failed_result m)
      | Completes \<Rightarrow> Resolved ok_result
      | FailsLater m \<Rightarrow> Resolved ok_result)"



subsection \<open>Renderer: what a transfer sees of its environment\<close>

text \<open>\<open>invoke_*\<close> is \<open>ipcRenderer.invoke\<close> on the channel of that name, \<open>path_join\<close>
  and \<open>path_basename\<close> are Node's \<open>path.join\<close> and \<open>path.basename\<close>, \<open>existsSync\<close> and
  \<open>mkdirSync\<close> are those of \<open>fs\<close> (\<open>mkdirSync\<close> with \<open>recursive: true\<close>; \<open>Some m\<close> is a
  throw).  The answers are given per argument.\<close>

record env =
  path_join :: "path \<Rightarrow> path \<Rightarrow> path"
  path_basename :: "path \<Rightarrow> string"
  existsSync :: "path \<Rightarrow> bool"
  mkdirSync :: "path \<Rightarrow> string option"
  invoke_push_file :: "string \<Rightarrow> path \<Rightarrow> path \<Rightarrow> ipc_result promise"
  invoke_pull_file :: "string \<Rightarrow> path \<Rightarrow> path \<Rightarrow> ipc_result promise"
  invoke_create_directory :: "string \<Rightarrow> path \<Rightarrow> ipc_result promise"

text \<open>The environment of the running application: every channel is answered by the
  handler that main.js registers for it.\<close>

definition app_env ::
  "client \<Rightarrow> (path \<Rightarrow> path \<Rightarrow> path) \<Rightarrow> (path \<Rightarrow> string) \<Rightarrow> (path \<Rightarrow> bool) \<Rightarrow> (path \<Rightarrow> string option) \<Rightarrow> env" where
  "app_env c pj pb ex mk =
     \<lparr>path_join = pj, path_basename = pb, existsSync = ex, mkdirSync = mk,
      invoke_push_file = push_file_handler c,
      invoke_pull_file = pull_file_handler c,
      invoke_create_directory = create_directory_handler c\<rparr>"

text \<open>The status line.  One constructor for each message the transfer code writes; the
  numbers and names are the values interpolated into the template.\<close>

datatype status =
    StatusError string
  | PreparingFiles nat string
  | ErrorCountingFiles string
  | ErrorCreatingFolderOnAndroid string
  | ErrorCreatingFolderLocally string
  | ScanningAndroid
  | PreparingFromAndroid nat
  | Transferring nat nat string
  | ErrorProgress nat nat string string
  | NoDeviceSelected
  | NoItemsSelected
  | TransferAlreadyInProgress
  | PreparingTransferToAndroid
  | PreparingTransferToLocal
  | TransferringItem nat nat string
  | TransferComplete nat nat
  | TransferCompletedRefreshed

datatype event =
    SetStatus status
  | CreateDirectory path
  | PushFile path path
  | PullFile path path
  | MkdirSync path

subsection \<open>Single files (transferOperations.js)\<close>

definition transferLocalFileToAndroid :: "env \<Rightarrow> string \<Rightarrow> path \<Rightarrow> path \<Rightarrow> bool \<times> event list" where
  "transferLocalFileToAndroid e deviceId localPath androidPath =
     (case invoke_push_file e deviceId localPath androidPath of
        Resolved r \<Rightarrow> (True, [PushFile localPath androidPath])
      | Rejected m \<Rightarrow> (False, [PushFile localPath androidPath, SetStatus (StatusError m)]))"

definition transferAndroidFileToLocal :: "env \<Rightarrow> string \<Rightarrow> path \<Rightarrow> path \<Rightarrow> bool \<times> event list" where
  "transferAndroidFileToLocal e deviceId androidPath localPath =
     (case invoke_pull_file e deviceId androidPath localPath of
        Resolved r \<Rightarrow> (True, [PullFile androidPath localPath])
      | Rejected m \<Rightarrow> (False, [PullFile androidPath localPath, SetStatus (StatusError m)]))"

subsection \<open>Local folder to Android (transferOperations.js)\<close>

text \<open>The local source tree, as \<open>fs.readdirSync(dir, {withFileTypes: true})\<close> shows it:
  an entry is a file (\<open>isDirectory()\<close> false) or a directory; \<open>LDir name items\<close> is a
  directory whose listing is \<open>items\<close>, \<open>LDenied name m\<close> a directory whose
  \<open>readdirSync\<close> throws an error of message \<open>m\<close>.\<close>

datatype lnode = LFile string | LDir string "lnode list" | LDenied string string

text \<open>The result object \<open>{ success, errors }\<close> of a folder transfer.\<close>

record folder_result =
  fr_success :: nat
  fr_errors :: nat

text \<open>The variables the nested functions of one folder transfer close over, and the
  trace written so far.\<close>

record counters =
  processedFiles :: nat
  successCount :: nat
  errorCount :: nat
  trace :: "event list"

definition emit :: "event \<Rightarrow> counters \<Rightarrow> counters" where
  "emit ev s = s\<lparr>trace := trace s @ [ev]\<rparr>"

text \<open>\<open>countFiles\<close> on the entries that \<open>readdirSync(dirPath)\<close> returned; the second
  argument is \<open>totalFiles\<close>.  \<open>Inl m\<close>: a nested \<open>readdirSync\<close> threw.\<close>

fun countFiles :: "lnode list \<Rightarrow> nat \<Rightarrow> string + nat" where
  "countFiles [] totalFiles = Inr totalFiles"
| "countFiles (LFile name # items) totalFiles = countFiles items (totalFiles + 1)"
| "countFiles (LDir name sub # items) totalFiles =
     (case countFiles sub totalFiles of
        Inl m \<Rightarrow> Inl m
      | Inr t \<Rightarrow> countFiles items t)"
| "countFiles (LDenied name m # items) totalFiles = Inl m"

text \<open>The \<open>try\<close>/\<open>catch\<close> that transfers one file to the device, in
  \<open>processDirectory\<close>.\<close>

definition pushOne :: "env \<Rightarrow> string \<Rightarrow> nat \<Rightarrow> path \<Rightarrow> path \<Rightarrow> string \<Rightarrow> counters \<Rightarrow> counters" where
  "pushOne e deviceId totalFiles localItemPath androidItemPath name s =
     (let s1 = emit (PushFile localItemPath androidItemPath) s;
          p = processedFiles s1 + 1
      in case invoke_push_file e deviceId localItemPath androidItemPath of
           Resolved r \<Rightarrow>
             emit (SetStatus (Transferring p totalFiles name))
               (s1\<lparr>processedFiles := p, successCount := successCount s1 + 1\<rparr>)
         | Rejected m \<Rightarrow>
             emit (SetStatus (ErrorProgress p totalFiles name m))
               (s1\<lparr>processedFiles := p, errorCount := errorCount s1 + 1\<rparr>))"

text \<open>\<open>processDirectory(localDir, androidDir)\<close> on the entries that
  \<open>readdirSync(localDir)\<close> returned.  The recursive call returns
  \<open>{ success: successCount, errors: errorCount }\<close>, the shared counters, which the caller
  then adds to the same counters.  A rejected \<open>create-directory\<close> and a throwing
  \<open>readdirSync\<close> of the subdirectory both land in the \<open>catch\<close> around the two.\<close>

fun processDirectory :: "env \<Rightarrow> string \<Rightarrow> nat \<Rightarrow> path \<Rightarrow> path \<Rightarrow> lnode list \<Rightarrow> counters \<Rightarrow> counters" where
  "processDirectory e deviceId totalFiles localDir androidDir [] s = s"
| "processDirectory e deviceId totalFiles localDir androidDir (LFile name # items) s =
     (let localItemPath = path_join e localDir name;
          androidItemPath = androidDir @ ''/'' @ name
      in processDirectory e deviceId totalFiles localDir androidDir items
           (pushOne e deviceId totalFiles localItemPath androidItemPath name s))"
| "processDirectory e deviceId totalFiles localDir androidDir (LDir name sub # items) s =
     (let localItemPath = path_join e localDir name;
          androidItemPath = androidDir @ ''/'' @ name;
          s1 = emit (CreateDirectory androidItemPath) s;
          s2 = (case invoke_create_directory e deviceId androidItemPath of
                  Rejected m \<Rightarrow> s1\<lparr>errorCount := errorCount s1 + 1\<rparr>
                | Resolved r \<Rightarrow>
                    (let s' = processDirectory e deviceId totalFiles localItemPath androidItemPath sub s1
                     in s'\<lparr>successCount := successCount s' + successCount s',
                            errorCount := errorCount s' + errorCount s'\<rparr>))
      in processDirectory e deviceId totalFiles localDir androidDir items s2)"
| "processDirectory e deviceId totalFiles localDir androidDir (LDenied name m # items) s =
     (let androidItemPath = androidDir @ ''/'' @ name;
          s1 = emit (CreateDirectory androidItemPath) s;
          s2 = s1\<lparr>errorCount := errorCount s1 + 1\<rparr>
      in processDirectory e deviceId totalFiles localDir androidDir items s2)"

definition count_failed :: "string \<Rightarrow> folder_result \<times> event list" where
  "count_failed m = (\<lparr>fr_success = 0, fr_errors = 1\<rparr>, [SetStatus (ErrorCountingFiles m)])"

text \<open>The last argument is what \<open>readdirSync(localFolderPath)\<close> gives: the entries, or
  \<open>Inl m\<close> when it throws.\<close>

definition transferLocalFolderToAndroid ::
  "env \<Rightarrow> string \<Rightarrow> path \<Rightarrow> path \<Rightarrow> string + lnode list \<Rightarrow> folder_result \<times> event list" where
  "transferLocalFolderToAndroid e deviceId localFolderPath androidFolderPath root =
     (case root of
        Inl m \<Rightarrow> count_failed m
      | Inr items \<Rightarrow>
          (case countFiles items 0 of
             Inl m \<Rightarrow> count_failed m
           | Inr totalFiles \<Rightarrow>
               (let t0 = [SetStatus (PreparingFiles totalFiles (path_basename e localFolderPath)),
                          CreateDirectory androidFolderPath]
                in case invoke_create_directory e deviceId androidFolderPath of
                     Rejected m \<Rightarrow>
                       (\<lparr>fr_success = 0, fr_errors = 1\<rparr>,
                        t0 @ [SetStatus (ErrorCreatingFolderOnAndroid m)])
                   | Resolved r \<Rightarrow>
                       (let s = processDirectory e deviceId totalFiles localFolderPath
                                  androidFolderPath items
                                  \<lparr>processedFiles = 0, successCount = 0, errorCount = 0, trace = t0\<rparr>
                        in (\<lparr>fr_success = successCount s, fr_errors = errorCount s\<rparr>, trace s)))))"

subsection \<open>Android folder to local (transferOperations.js)\<close>

text \<open>The remote tree, as \<open>list-files\<close> shows it.  An entry has \<open>name\<close>, \<open>mode\<close> and
  \<open>size\<close>; the fourth field is what listing the entry's own path gives: the entries
  (\<open>RNode\<close>), or a rejection with a message (\<open>RDenied\<close>).  It is only looked at when the
  code lists that path.\<close>

datatype rnode =
    RNode string "32 word" nat "rnode list"
  | RDenied string "32 word" nat string

fun rname :: "rnode \<Rightarrow> string" where
  "rname (RNode name mode sz sub) = name"
| "rname (RDenied name mode sz m) = name"

fun rmode :: "rnode \<Rightarrow> 32 word" where
  "rmode (RNode name mode sz sub) = mode"
| "rmode (RDenied name mode sz m) = mode"

fun rsize :: "rnode \<Rightarrow> nat" where
  "rsize (RNode name mode sz sub) = sz"
| "rsize (RDenied name mode sz m) = sz"

text \<open>\<open>(item.mode & 0x4000) === 0x4000\<close>\<close>

definition isDir :: "32 word \<Rightarrow> bool" where
  "isDir mode = (mode AND 0x4000 = 0x4000)"

definition endsWith_slash :: "path \<Rightarrow> bool" where
  "endsWith_slash p = (p \<noteq> [] \<and> last p = CHR ''/'')"

definition itemPath_of :: "path \<Rightarrow> string \<Rightarrow> path" where
  "itemPath_of p name = (if endsWith_slash p then p @ name else p @ ''/'' @ name)"

type_synonym file_entry = "path \<times> string \<times> nat"
type_synonym dir_entry = "path \<times> string"

record scan_results =
  files :: "file_entry list"
  directories :: "dir_entry list"

definition no_results :: scan_results where
  "no_results = \<lparr>files = [], directories = []\<rparr>"

text \<open>The loop of \<open>listAndroidFilesRecursively(path)\<close> over the entries that
  \<open>list-files\<close> returned for \<open>path\<close>, with \<open>results\<close> as built so far.  The recursive
  call starts from its own empty \<open>results\<close>; a rejected listing is rethrown.\<close>

fun scanItems :: "path \<Rightarrow> rnode list \<Rightarrow> scan_results \<Rightarrow> string + scan_results" where
  "scanItems p [] results = Inr results"
| "scanItems p (RNode name mode sz sub # items) results =
     (let itemPath = itemPath_of p name in
      if isDir mode then
        (case scanItems itemPath sub no_results of
           Inl m \<Rightarrow> Inl m
         | Inr subResults \<Rightarrow>
             scanItems p items
               (results\<lparr>directories := directories results @ [(itemPath, name)] @ directories subResults,
                        files := files results @ files subResults\<rparr>))
      else scanItems p items (results\<lparr>files := files results @ [(itemPath, name, sz)]\<rparr>))"
| "scanItems p (RDenied name mode sz m # items) results =
     (let itemPath = itemPath_of p name in
      if isDir mode then Inl m
      else scanItems p items (results\<lparr>files := files results @ [(itemPath, name, sz)]\<rparr>))"

text \<open>The argument \<open>listing\<close> is what \<open>list-files\<close> answers for \<open>path\<close> itself.\<close>

definition listAndroidFilesRecursively :: "path \<Rightarrow> string + rnode list \<Rightarrow> string + scan_results" where
  "listAndroidFilesRecursively p listing =
     (case listing of Inl m \<Rightarrow> Inl m | Inr items \<Rightarrow> scanItems p items no_results)"

text \<open>The loop "Create all directories first".  A throwing \<open>mkdirSync\<close> leaves the loop
  for the outer \<open>catch\<close>: \<open>Inl\<close> carries the message and the trace up to the throw.\<close>

fun createDirectories :: "env \<Rightarrow> path \<Rightarrow> path \<Rightarrow> dir_entry list \<Rightarrow> event list \<Rightarrow> (string \<times> event list) + event list" where
  "createDirectories e androidFolderPath localFolderPath [] t = Inr t"
| "createDirectories e androidFolderPath localFolderPath ((dpath, dname) # dirs) t =
     (let relativePath = drop (length androidFolderPath) dpath;
          targetPath = path_join e localFolderPath relativePath
      in if \<not> existsSync e targetPath then
           (case mkdirSync e targetPath of
              Some m \<Rightarrow> Inl (m, t @ [MkdirSync targetPath])
            | None \<Rightarrow> createDirectories e androidFolderPath localFolderPath dirs (t @ [MkdirSync targetPath]))
         else createDirectories e androidFolderPath localFolderPath dirs t)"

text \<open>The \<open>try\<close>/\<open>catch\<close> that pulls one file, and the loop "Then transfer all
  files" around it.\<close>

definition pullOne :: "env \<Rightarrow> string \<Rightarrow> nat \<Rightarrow> path \<Rightarrow> path \<Rightarrow> string \<Rightarrow> counters \<Rightarrow> counters" where
  "pullOne e deviceId totalFiles fpath targetPath fname s =
     (let s1 = emit (PullFile fpath targetPath) s;
          p = processedFiles s1 + 1
      in case invoke_pull_file e deviceId fpath targetPath of
           Resolved r \<Rightarrow>
             emit (SetStatus (Transferring p totalFiles fname))
               (s1\<lparr>processedFiles := p, successCount := successCount s1 + 1\<rparr>)
         | Rejected m \<Rightarrow>
             emit (SetStatus (ErrorProgress p totalFiles fname m))
               (s1\<lparr>processedFiles := p, errorCount := errorCount s1 + 1\<rparr>))"

fun pullFiles :: "env \<Rightarrow> string \<Rightarrow> nat \<Rightarrow> path \<Rightarrow> path \<Rightarrow> file_entry list \<Rightarrow> counters \<Rightarrow> counters" where
  "pullFiles e deviceId totalFiles androidFolderPath localFolderPath [] s = s"
| "pullFiles e deviceId totalFiles androidFolderPath localFolderPath ((fpath, fname, fsize) # fs) s =
     (let relativePath = drop (length androidFolderPath) fpath;
          targetPath = path_join e localFolderPath relativePath
      in pullFiles e deviceId totalFiles androidFolderPath localFolderPath fs
           (pullOne e deviceId totalFiles fpath targetPath fname s))"

text \<open>The \<open>try\<close> block after the base folder exists; \<open>t0\<close> is the trace so far.\<close>

definition scanAndPull ::
  "env \<Rightarrow> string \<Rightarrow> path \<Rightarrow> path \<Rightarrow> string + rnode list \<Rightarrow> event list \<Rightarrow> folder_result \<times> event list" where
  "scanAndPull e deviceId androidFolderPath localFolderPath listing t0 =
     (let t1 = t0 @ [SetStatus ScanningAndroid] in
      case listAndroidFilesRecursively androidFolderPath listing of
        Inl m \<Rightarrow> (\<lparr>fr_success = 0, fr_errors = 0 + 1\<rparr>, t1 @ [SetStatus (StatusError m)])
      | Inr fileList \<Rightarrow>
          (let totalFiles = length (files fileList);
               t2 = t1 @ [SetStatus (PreparingFromAndroid totalFiles)]
           in case createDirectories e androidFolderPath localFolderPath (directories fileList) t2 of
                Inl (m, t3) \<Rightarrow> (\<lparr>fr_success = 0, fr_errors = 0 + 1\<rparr>, t3 @ [SetStatus (StatusError m)])
              | Inr t3 \<Rightarrow>
                  (let s = pullFiles e deviceId totalFiles androidFolderPath localFolderPath
                             (files fileList)
                             \<lparr>processedFiles = 0, successCount = 0, errorCount = 0, trace = t3\<rparr>
                   in (\<lparr>fr_success = successCount s, fr_errors = errorCount s\<rparr>, trace s))))"

definition transferAndroidFolderToLocal ::
  "env \<Rightarrow> string \<Rightarrow> path \<Rightarrow> path \<Rightarrow> string + rnode list \<Rightarrow> folder_result \<times> event list" where
  "transferAndroidFolderToLocal e deviceId androidFolderPath localFolderPath listing =
     (if \<not> existsSync e localFolderPath then
        (case mkdirSync e localFolderPath of
           Some m \<Rightarrow>
             (\<lparr>fr_success = 0, fr_errors = 1\<rparr>,
              [MkdirSync localFolderPath, SetStatus (ErrorCreatingFolderLocally m)])
         | None \<Rightarrow>
             scanAndPull e deviceId androidFolderPath localFolderPath listing [MkdirSync localFolderPath])
      else scanAndPull e deviceId androidFolderPath localFolderPath listing [])"

subsection \<open>Rendering and classifying remote entries (fileSystem.js, renderer.js)\<close>

text \<open>The data attributes \<open>renderFileList\<close> puts on the element of an entry.\<close>

record dom_item =
  data_name :: string
  data_isDir :: string

text \<open>The comparator of \<open>renderFileList\<close> for a remote list (\<open>isLocal\<close> false);
  \<open>localeCompare\<close> is the browser's.\<close>

definition compareItems :: "(string \<Rightarrow> string \<Rightarrow> int) \<Rightarrow> rnode \<Rightarrow> rnode \<Rightarrow> int" where
  "compareItems localeCompare a b =
     (let aIsDir = isDir (rmode a); bIsDir = isDir (rmode b) in
      if aIsDir \<and> \<not> bIsDir then - 1
      else if \<not> aIsDir \<and> bIsDir then 1
      else localeCompare (rname a) (rname b))"

text \<open>\<open>[...items].sort(cmp)\<close>, as a stable insertion sort: an element goes in front of
  the first later element that does not compare below it.\<close>

fun insertBy :: "('a \<Rightarrow> 'a \<Rightarrow> int) \<Rightarrow> 'a \<Rightarrow> 'a list \<Rightarrow> 'a list" where
  "insertBy cmp x [] = [x]"
| "insertBy cmp x (y # ys) = (if cmp x y \<le> 0 then x # y # ys else y # insertBy cmp x ys)"

fun sortBy :: "('a \<Rightarrow> 'a \<Rightarrow> int) \<Rightarrow> 'a list \<Rightarrow> 'a list" where
  "sortBy cmp [] = []"
| "sortBy cmp (x # xs) = insertBy cmp x (sortBy cmp xs)"

definition renderItem :: "rnode \<Rightarrow> dom_item" where
  "renderItem item =
     (let isDirectory = isDir (rmode item)
      in \<lparr>data_name = rname item, data_isDir = (if isDirectory then ''true'' else ''false'')\<rparr>)"

definition renderFileList :: "(string \<Rightarrow> string \<Rightarrow> int) \<Rightarrow> rnode list \<Rightarrow> dom_item list" where
  "renderFileList localeCompare items = map renderItem (sortBy (compareItems localeCompare) items)"

text \<open>What \<open>document.querySelector\<close> does for the selector built from a selected name:
  it throws, returns \<open>null\<close>, or returns an element whose \<open>dataset.isDir\<close> is a string or
  is missing.\<close>

datatype query_result = QueryThrows | QueryNull | QueryElement "string option"

text \<open>The immediately invoked function that computes \<open>isDirectory\<close> for a selected remote
  item in the click handlers of renderer.js.\<close>

definition selectedIsDirectory :: "query_result \<Rightarrow> string \<Rightarrow> bool" where
  "selectedIsDirectory q itemName =
     (case q of
        QueryThrows \<Rightarrow> False
      | QueryElement (Some v) \<Rightarrow> v = ''true''
      | QueryElement None \<Rightarrow> False
      | QueryNull \<Rightarrow> CHR ''.'' \<notin> set itemName)"

subsection \<open>Application state and the transfer buttons (state.js, renderer.js)\<close>

text \<open>The fields of \<open>state\<close> the transfer handlers read or write; a selection set is the
  list of its members in insertion order.\<close>

record app_state =
  selectedDevice :: "string option"
  localPath :: path
  androidPath :: path
  localSelectedItems :: "string list"
  androidSelectedItems :: "string list"
  isTransferring :: bool

definition clearSelections :: "app_state \<Rightarrow> app_state" where
  "clearSelections st = st\<lparr>localSelectedItems := [], androidSelectedItems := []\<rparr>"

text \<open>The three guards at the head of each click handler, in the order of the code:
  \<open>Some m\<close> is the status set before the early \<open>return\<close>.\<close>

definition toAndroid_guard :: "app_state \<Rightarrow> status option" where
  "toAndroid_guard st =
     (if selectedDevice st = None then Some NoDeviceSelected
      else if localSelectedItems st = [] then Some NoItemsSelected
      else if isTransferring st then Some TransferAlreadyInProgress
      else None)"

definition toLocal_guard :: "app_state \<Rightarrow> status option" where
  "toLocal_guard st =
     (if selectedDevice st = None then Some NoDeviceSelected
      else if androidSelectedItems st = [] then Some NoItemsSelected
      else if isTransferring st then Some TransferAlreadyInProgress
      else None)"

text \<open>\<open>state.isTransferring = true\<close> after the guards, and the \<open>finally\<close> block.\<close>

definition transfer_begin :: "app_state \<Rightarrow> app_state" where
  "transfer_begin st = st\<lparr>isTransferring := True\<rparr>"

definition transfer_finally :: "app_state \<Rightarrow> app_state" where
  "transfer_finally st = clearSelections (st\<lparr>isTransferring := False\<rparr>)"

text \<open>\<open>itemName.replace(/[\\/|:&><"?*]/g, '_')\<close> and \<open>itemName.replace(/[\\/:*?"<>|]/g, '_')\<close>\<close>

definition sanitizeForAndroid :: "string \<Rightarrow> string" where
  "sanitizeForAndroid itemName =
     map (\<lambda>c. if c \<in> set (CHR 0x5C # ''/|:&><\"?*'') then CHR ''_'' else c) itemName"

definition sanitizeForLocal :: "string \<Rightarrow> string" where
  "sanitizeForLocal itemName =
     map (\<lambda>c. if c \<in> set (CHR 0x5C # ''/:*?\"<>|'') then CHR ''_'' else c) itemName"

text \<open>\<open>.replace(/\/+/g, '/')\<close>\<close>

fun collapseSlashes :: "string \<Rightarrow> string" where
  "collapseSlashes (a # b # cs) =
     (if a = CHR ''/'' \<and> b = CHR ''/'' then collapseSlashes (b # cs) else a # collapseSlashes (b # cs))"
| "collapseSlashes cs = cs"

text \<open>\<open>.replace(/\\/g, '/')\<close>\<close>

definition backslashesToSlashes :: "string \<Rightarrow> string" where
  "backslashesToSlashes p = map (\<lambda>c. if c = CHR 0x5C then CHR ''/'' else c) p"

text \<open>\<open>state.selectedDevice\<close> where the handlers pass it on; they do so only after the
  guard has found it set.\<close>

definition deviceId_of :: "app_state \<Rightarrow> string" where
  "deviceId_of st = (case selectedDevice st of Some d \<Rightarrow> d | None \<Rightarrow> [])"

text \<open>What \<open>fs.existsSync\<close> and \<open>fs.statSync\<close> say about a selected local item, and for a
  directory the listing of its path.\<close>

datatype local_item =
    Missing
  | StatThrows string
  | IsFile
  | IsDirectory "string + lnode list"

text \<open>The running totals of a click handler: \<open>successCount\<close>, \<open>errorCount\<close> and the
  trace.\<close>

type_synonym tally = "nat \<times> nat \<times> event list"

text \<open>The \<open>for\<close> loop of the transfer-to-Android handler over the selected names;
  \<open>current\<close> is the counter before its increment.\<close>

fun toAndroid_loop ::
  "env \<Rightarrow> (path \<Rightarrow> local_item) \<Rightarrow> app_state \<Rightarrow> string \<Rightarrow> nat \<Rightarrow> nat \<Rightarrow> string list \<Rightarrow> tally \<Rightarrow> tally" where
  "toAndroid_loop e look st deviceId totalItems current [] acc = acc"
| "toAndroid_loop e look st deviceId totalItems current (itemName # rest) (sc, ec, t) =
     (let current' = current + 1;
          localItemPath = path_join e (localPath st) itemName;
          androidTargetPath = collapseSlashes (androidPath st @ ''/'' @ sanitizeForAndroid itemName);
          t1 = t @ [SetStatus (TransferringItem current' totalItems itemName)]
      in toAndroid_loop e look st deviceId totalItems current' rest
           (case look localItemPath of
              Missing \<Rightarrow> (sc, ec + 1, t)
            | StatThrows m \<Rightarrow> (sc, ec + 1, t)
            | IsDirectory root \<Rightarrow>
                (let (folderResult, tr) =
                       transferLocalFolderToAndroid e deviceId localItemPath androidTargetPath root
                 in (sc + fr_success folderResult, ec + fr_errors folderResult, t1 @ tr))
            | IsFile \<Rightarrow>
                (let (ok, tr) = transferLocalFileToAndroid e deviceId localItemPath androidTargetPath
                 in if ok then (sc + 1, ec, t1 @ tr) else (sc, ec + 1, t1 @ tr))))"

text \<open>The \<open>for\<close> loop of the transfer-to-local handler; \<open>query\<close> answers the DOM lookup
  for a name, \<open>listing\<close> is what \<open>list-files\<close> answers for a remote path.\<close>

fun toLocal_loop ::
  "env \<Rightarrow> (string \<Rightarrow> query_result) \<Rightarrow> (path \<Rightarrow> string + rnode list) \<Rightarrow> app_state \<Rightarrow> string \<Rightarrow> nat \<Rightarrow> nat
     \<Rightarrow> string list \<Rightarrow> tally \<Rightarrow> tally" where
  "toLocal_loop e query listing st deviceId totalItems current [] acc = acc"
| "toLocal_loop e query listing st deviceId totalItems current (itemName # rest) (sc, ec, t) =
     (let current' = current + 1;
          androidItemPath = backslashesToSlashes (path_join e (androidPath st) itemName);
          localTargetPath = path_join e (localPath st) (sanitizeForLocal itemName);
          isDirectory = selectedIsDirectory (query itemName) itemName;
          t1 = t @ [SetStatus (TransferringItem current' totalItems itemName)]
      in toLocal_loop e query listing st deviceId totalItems current' rest
           (if isDirectory then
              (let (folderResult, tr) =
                     transferAndroidFolderToLocal e deviceId androidItemPath localTargetPath
                       (listing androidItemPath)
               in (sc + fr_success folderResult, ec + fr_errors folderResult, t1 @ tr))
            else
              (let (ok, tr) = transferAndroidFileToLocal e deviceId androidItemPath localTargetPath
               in if ok then (sc + 1, ec, t1 @ tr) else (sc, ec + 1, t1 @ tr))))"

text \<open>The click handlers, run from the click to the end of \<open>finally\<close>.  The progress
  bar and the refresh of the two views are not part of the model.\<close>

definition transferToAndroid_click :: "env \<Rightarrow> (path \<Rightarrow> local_item) \<Rightarrow> app_state \<Rightarrow> app_state \<times> event list" where
  "transferToAndroid_click e look st =
     (case toAndroid_guard st of
        Some m \<Rightarrow> (st, [SetStatus m])
      | None \<Rightarrow>
          (let st1 = transfer_begin st;
               (sc, ec, t) = toAndroid_loop e look st1 (deviceId_of st1)
                               (length (localSelectedItems st1)) 0 (localSelectedItems st1)
                               (0, 0, [SetStatus PreparingTransferToAndroid])
           in (transfer_finally st1,
               t @ [SetStatus (TransferComplete sc ec), SetStatus TransferCompletedRefreshed])))"

definition transferToLocal_click ::
  "env \<Rightarrow> (string \<Rightarrow> query_result) \<Rightarrow> (path \<Rightarrow> string + rnode list) \<Rightarrow> app_state \<Rightarrow> app_state \<times> event list" where
  "transferToLocal_click e query listing st =
     (case toLocal_guard st of
        Some m \<Rightarrow> (st, [SetStatus m])
      | None \<Rightarrow>
          (let st1 = transfer_begin st;
               (sc, ec, t) = toLocal_loop e query listing st1 (deviceId_of st1)
                               (length (androidSelectedItems st1)) 0 (androidSelectedItems st1)
                               (0, 0, [SetStatus PreparingTransferToLocal])
           in (transfer_finally st1,
               t @ [SetStatus (TransferComplete sc ec), SetStatus TransferCompletedRefreshed])))"

text \<open>The handlers are \<open>async\<close>: between the guards and \<open>finally\<close> a handler is suspended
  at its \<open>await\<close>s, and other clicks run.  \<open>pending\<close> counts the handlers that have passed
  their guards and not yet run \<open>finally\<close>.\<close>

record session =
  app :: app_state
  pending :: nat

datatype action =
    ClickTransferToAndroid
  | ClickTransferToLocal
  | HandlerReachesFinally
  | SelectDevice "string option"
  | SelectLocal "string list"
  | SelectAndroid "string list"

fun step :: "session \<Rightarrow> action \<Rightarrow> session" where
  "step s ClickTransferToAndroid =
     (case toAndroid_guard (app s) of
        Some m \<Rightarrow> s
      | None \<Rightarrow> s\<lparr>app := transfer_begin (app s), pending := pending s + 1\<rparr>)"
| "step s ClickTransferToLocal =
     (case toLocal_guard (app s) of
        Some m \<Rightarrow> s
      | None \<Rightarrow> s\<lparr>app := transfer_begin (app s), pending := pending s + 1\<rparr>)"
| "step s HandlerReachesFinally =
     (if pending s = 0 then s
      else s\<lparr>app := transfer_finally (app s), pending := pending s - 1\<rparr>)"
| "step s (SelectDevice d) = s\<lparr>app := (app s)\<lparr>selectedDevice := d\<rparr>\<rparr>"
| "step s (SelectLocal xs) = s\<lparr>app := (app s)\<lparr>localSelectedItems := xs\<rparr>\<rparr>"
| "step s (SelectAndroid xs) = s\<lparr>app := (app s)\<lparr>androidSelectedItems := xs\<rparr>\<rparr>"

definition run :: "session \<Rightarrow> action list \<Rightarrow> session" where
  "run s as = foldl step s as"

text \<open>The state at start-up (state.js): nothing selected, no transfer.\<close>

definition initial :: "path \<Rightarrow> session" where
  "initial home =
     \<lparr>app = \<lparr>selectedDevice = None, localPath = home, androidPath = ''/sdcard'',
             localSelectedItems = [], androidSelectedItems = [], isTransferring = False\<rparr>,
      pending = 0\<rparr>"

subsection \<open>Sample inputs\<close>

text \<open>A join that puts exactly one separator between its arguments, a base name that
  is what follows the last separator, a bridge client that rejects every call, as with a
  disconnected device, and the application on top of it.\<close>

definition simple_join :: "path \<Rightarrow> path \<Rightarrow> path" where
  "simple_join a b = a @ ''/'' @ dropWhile (\<lambda>c. c = CHR ''/'') b"

definition simple_basename :: "path \<Rightarrow> string" where
  "simple_basename p = rev (takeWhile (\<lambda>c. c \<noteq> CHR ''/'') (rev p))"

definition offline_client :: client where
  "offline_client =
     \<lparr>push = (\<lambda>d l r. Rejects ''device offline''),
      pull = (\<lambda>d r. Rejects ''device offline''),
      writeStream = (\<lambda>p. None),
      shell = (\<lambda>d c. Rejects ''device offline'')\<rparr>"

definition offline_env :: env where
  "offline_env = app_env offline_client simple_join simple_basename (\<lambda>p. False) (\<lambda>p. None)"

text \<open>Application states: a transfer to Android in flight with one local item selected,
  the same state with no transfer in flight, one with a remote item selected too, and
  that one with a transfer in flight.\<close>

definition busy_state :: app_state where
  "busy_state =
     \<lparr>selectedDevice = Some ''emulator-5554'', localPath = ''/home/u'', androidPath = ''/sdcard'',
      localSelectedItems = [''a.txt''], androidSelectedItems = [], isTransferring = True\<rparr>"

definition ready_state :: app_state where
  "ready_state = busy_state\<lparr>isTransferring := False\<rparr>"

definition ready_for_local :: app_state where
  "ready_for_local = ready_state\<lparr>androidSelectedItems := [''b.txt'']\<rparr>"

definition busy_for_local :: app_state where
  "busy_for_local = ready_for_local\<lparr>isTransferring := True\<rparr>"

text \<open>A remote listing: a regular file (mode 0100644), a directory (040755) with one
  picture, and an empty directory whose name has a dot.\<close>

definition sample_listing :: "rnode list" where
  "sample_listing =
     [RNode ''notes'' 0x81A4 12 [],
      RNode ''DCIM'' 0x41ED 4096 [RNode ''img.jpg'' 0x81A4 2048 []],
      RNode ''archive.d'' 0x41ED 4096 []]"

text \<open>A bridge client that accepts every call, one that fails on one file in each
  direction, and environments over them: the application over the failing client, one
  whose \<open>invoke\<close> on \<open>push-file\<close> is rejected for that file, and one whose local
  file system refuses to create one directory.\<close>

definition online_client :: client where
  "online_client =
     \<lparr>push = (\<lambda>d l r. Completes), pull = (\<lambda>d r. Completes), writeStream = (\<lambda>p. None),
      shell = (\<lambda>d c. Completes)\<rparr>"

definition one_bad_client :: client where
  "one_bad_client =
     \<lparr>push = (\<lambda>d l r. if r = ''/sdcard/root/sub/b.txt'' then Rejects ''Permission denied'' else Completes),
      pull = (\<lambda>d r. if r = ''/sdcard/DCIM/Camera/b.jpg'' then Rejects ''Permission denied'' else Completes),
      writeStream = (\<lambda>p. None),
      shell = (\<lambda>d c. Completes)\<rparr>"

definition one_bad_env :: env where
  "one_bad_env = app_env one_bad_client simple_join simple_basename (\<lambda>p. False) (\<lambda>p. None)"

definition rejecting_env :: env where
  "rejecting_env =
     (app_env online_client simple_join simple_basename (\<lambda>p. False) (\<lambda>p. None))
       \<lparr>invoke_push_file :=
          (\<lambda>d l r. if r = ''/sdcard/root/sub/b.txt'' then Rejected ''Permission denied''
                    else Resolved ok_result)\<rparr>"

definition readonly_env :: env where
  "readonly_env =
     app_env online_client simple_join simple_basename (\<lambda>p. False)
       (\<lambda>p. if p = ''/home/u/DCIM/Camera'' then Some ''EACCES: permission denied'' else None)"

text \<open>A local folder with one subdirectory of two files, and a remote folder with one
  subdirectory of two pictures.\<close>

definition local_sub_two :: "lnode list" where
  "local_sub_two = [LDir ''sub'' [LFile ''a.txt'', LFile ''b.txt'']]"

definition remote_camera_two :: "rnode list" where
  "remote_camera_two =
     [RNode ''Camera'' 0x41ED 4096 [RNode ''a.jpg'' 0x81A4 2048 [], RNode ''b.jpg'' 0x81A4 1024 []]]"

text \<open>The application over the accepting client; a local folder with a file listed before
  a subdirectory; a local and a remote folder nested three deep.\<close>

definition online_env :: env where
  "online_env = app_env online_client simple_join simple_basename (\<lambda>p. False) (\<lambda>p. None)"

definition local_file_then_dir :: "lnode list" where
  "local_file_then_dir = [LFile ''a.txt'', LDir ''sub'' [LFile ''b.txt'']]"

definition local_nested :: "lnode list" where
  "local_nested = [LDir ''a'' [LDir ''b'' [LFile ''c.txt'']]]"

definition remote_nested :: "rnode list" where
  "remote_nested = [RNode ''a'' 0x41ED 4096 [RNode ''b'' 0x41ED 4096 [RNode ''c.txt'' 0x81A4 7 []]]]"



subsection \<open>Vocabulary of the properties\<close>

text \<open>The status a click handler sets when it returns at one of its guards while a
  transfer is in flight; the flag says which button.\<close>

definition action_guard_status :: "bool \<Rightarrow> app_state \<Rightarrow> status" where
  "action_guard_status toAndroid st =
     (if selectedDevice st = None then NoDeviceSelected
      else if (if toAndroid then localSelectedItems st else androidSelectedItems st) = [] then NoItemsSelected
      else TransferAlreadyInProgress)"

text \<open>Every entry of a remote tree that the scan of \<open>p\<close> obtains from a listing, with
  its path, in the order in which the scan meets it.\<close>

fun visited :: "path \<Rightarrow> rnode list \<Rightarrow> (path \<times> rnode) list" where
  "visited p [] = []"
| "visited p (RNode name mode sz sub # items) =
     (itemPath_of p name, RNode name mode sz sub)
       # (if isDir mode then visited (itemPath_of p name) sub else [])
       @ visited p items"
| "visited p (RDenied name mode sz m # items) =
     (itemPath_of p name, RDenied name mode sz m) # visited p items"

text \<open>The directory bit of an entry's mode, and the records the scan keeps of an
  entry.\<close>

definition dir_bit_set :: "rnode \<Rightarrow> bool" where
  "dir_bit_set item = (rmode item AND 0x4000 = 0x4000)"

definition as_directory :: "path \<times> rnode \<Rightarrow> dir_entry" where
  "as_directory x = (fst x, rname (snd x))"

definition as_file :: "path \<times> rnode \<Rightarrow> file_entry" where
  "as_file x = (fst x, rname (snd x), rsize (snd x))"

text \<open>The scan of the local source: the call \<open>countFiles(localFolderPath)\<close> on what
  \<open>readdirSync\<close> gives for the folder.\<close>

definition countFilesAt :: "string + lnode list \<Rightarrow> string + nat" where
  "countFilesAt root = (case root of Inl m \<Rightarrow> Inl m | Inr items \<Rightarrow> countFiles items 0)"

text \<open>Events that act on the destination, events that attempt a copy, and the
  \<open>processed\<close> counter of a per-file progress status.\<close>

fun touches_destination :: "event \<Rightarrow> bool" where
  "touches_destination (SetStatus m) = False"
| "touches_destination ev = True"

fun is_copy :: "event \<Rightarrow> bool" where
  "is_copy (PushFile l r) = True"
| "is_copy (PullFile r l) = True"
| "is_copy ev = False"

definition copy_attempts :: "event list \<Rightarrow> nat" where
  "copy_attempts evs = length (filter is_copy evs)"

fun progress_of :: "event \<Rightarrow> nat list" where
  "progress_of (SetStatus (Transferring p t name)) = [p]"
| "progress_of (SetStatus (ErrorProgress p t name m)) = [p]"
| "progress_of ev = []"

definition progress_counters :: "event list \<Rightarrow> nat list" where
  "progress_counters evs = concat (map progress_of evs)"

text \<open>One event per attempted copy, numbered from the counter's value on.\<close>

definition counted :: "counters \<Rightarrow> counters \<Rightarrow> bool" where
  "counted s s' =
     (\<exists>k new. trace s' = trace s @ new \<and> processedFiles s' = processedFiles s + k
         \<and> copy_attempts new = k
         \<and> progress_counters new = [Suc (processedFiles s)..<Suc (processedFiles s + k)])"

text \<open>Paths on the destination.  \<open>parentPath p\<close> is \<open>p\<close> up to its last separator: the
  directory an entry of path \<open>p\<close> lies in.  \<open>inside dir p\<close>: the path \<open>p\<close> lies inside the
  directory \<open>dir\<close>, at any depth.\<close>

definition parentPath :: "path \<Rightarrow> path" where
  "parentPath p = rev (tl (dropWhile (\<lambda>c. c \<noteq> CHR ''/'') (rev p)))"

definition inside :: "path \<Rightarrow> path \<Rightarrow> bool" where
  "inside dir p = (take (Suc (length dir)) p = dir @ ''/'')"

text \<open>The operations on the destination, in processing order: the creation of a
  directory and the copy of a file, each with its path.  \<open>parent_closed ds ops\<close>: every
  operation of \<open>ops\<close> has its parent directory among \<open>ds\<close> or created earlier in
  \<open>ops\<close>.\<close>

datatype dest_op = Create path | Put path

fun op_path :: "dest_op \<Rightarrow> path" where
  "op_path (Create p) = p"
| "op_path (Put p) = p"

fun parent_closed :: "path list \<Rightarrow> dest_op list \<Rightarrow> bool" where
  "parent_closed ds [] = True"
| "parent_closed ds (Create p # ops) = (parentPath p \<in> set ds \<and> parent_closed (p # ds) ops)"
| "parent_closed ds (Put p # ops) = (parentPath p \<in> set ds \<and> parent_closed ds ops)"

fun created :: "dest_op list \<Rightarrow> path list" where
  "created [] = []"
| "created (Create p # ops) = p # created ops"
| "created (Put p # ops) = created ops"

text \<open>The operations a transfer to Android makes on the device, read off its trace.
  Names of directory entries hold no separator.\<close>

fun android_op :: "event \<Rightarrow> dest_op list" where
  "android_op (CreateDirectory p) = [Create p]"
| "android_op (PushFile l r) = [Put r]"
| "android_op ev = []"

definition android_ops :: "event list \<Rightarrow> dest_op list" where
  "android_ops evs = concat (map android_op evs)"

fun lnames_ok :: "lnode list \<Rightarrow> bool" where
  "lnames_ok [] = True"
| "lnames_ok (LFile name # items) = (CHR ''/'' \<notin> set name \<and> lnames_ok items)"
| "lnames_ok (LDir name sub # items) = (CHR ''/'' \<notin> set name \<and> lnames_ok sub \<and> lnames_ok items)"
| "lnames_ok (LDenied name m # items) = (CHR ''/'' \<notin> set name \<and> lnames_ok items)"

text \<open>\<open>below dir ds new\<close>: the operations \<open>new\<close> find their parents in \<open>dir\<close>, in
  \<open>ds\<close> or among themselves, and all their paths are longer than \<open>dir\<close>.\<close>

definition below :: "path \<Rightarrow> path list \<Rightarrow> dest_op list \<Rightarrow> bool" where
  "below dir ds new = (parent_closed (dir # ds) new \<and> list_all (\<lambda>x. length dir < length (op_path x)) new)"

text \<open>The directory whose entries \<open>itemPath\<close> names; the plan of a scan in processing
  order, all of \<open>directories\<close> and then all of \<open>files\<close>; names of remote entries are
  not empty and hold no separator.\<close>

definition listed_dir :: "path \<Rightarrow> path" where
  "listed_dir p = (if endsWith_slash p then butlast p else p)"

definition plan_ops :: "scan_results \<Rightarrow> dest_op list" where
  "plan_ops res = map (Create \<circ> fst) (directories res) @ map (Put \<circ> fst) (files res)"

fun rnames_ok :: "rnode list \<Rightarrow> bool" where
  "rnames_ok [] = True"
| "rnames_ok (RNode name mode sz sub # items) =
     (name \<noteq> [] \<and> CHR ''/'' \<notin> set name \<and> rnames_ok sub \<and> rnames_ok items)"
| "rnames_ok (RDenied name mode sz m # items) =
     (name \<noteq> [] \<and> CHR ''/'' \<notin> set name \<and> rnames_ok items)"

text \<open>\<open>scanned b ds dn fn\<close>: the same for the directory entries \<open>dn\<close> and the file
  entries \<open>fn\<close> that a scan of the directory \<open>b\<close> adds to its results.\<close>

definition scanned :: "path \<Rightarrow> path list \<Rightarrow> dir_entry list \<Rightarrow> file_entry list \<Rightarrow> bool" where
  "scanned b ds dn fn =
     (parent_closed (b # ds) (map (Create \<circ> fst) dn)
      \<and> list_all (\<lambda>x. length b < length (fst x)) dn
      \<and> list_all (\<lambda>f. parentPath (fst f) \<in> set (b # map fst dn) \<and> length b < length (fst f)) fn)"

text \<open>Local directory creations and pulls; after the leading directory creations a
  trace acts on the destination by pulls only.\<close>

fun is_mkdir :: "event \<Rightarrow> bool" where
  "is_mkdir (MkdirSync p) = True"
| "is_mkdir ev = False"

fun is_pull :: "event \<Rightarrow> bool" where
  "is_pull (PullFile r l) = True"
| "is_pull ev = False"

definition creations_then_pulls :: "event list \<Rightarrow> bool" where
  "creations_then_pulls evs = list_all is_pull (dropWhile is_mkdir (filter touches_destination evs))"

definition split_at_pulls :: "event list \<Rightarrow> bool" where
  "split_at_pulls evs =
     (\<exists>mk pl. filter touches_destination evs = mk @ pl \<and> list_all is_mkdir mk \<and> list_all is_pull pl)"

text \<open>The local counterpart of a remote path in a transfer to local; a local directory
  exists or has had its \<open>mkdirSync\<close> among the first \<open>j\<close> events of a trace; a trace
  without pulls; and the two stages of a transfer to local: a trace \<open>t3\<close> without pulls
  in which every directory of the plan is provided for, and then a trace whose pulls are
  those of the files of the plan.\<close>

definition local_target :: "env \<Rightarrow> path \<Rightarrow> path \<Rightarrow> path \<Rightarrow> path" where
  "local_target e androidFolderPath localFolderPath p =
     path_join e localFolderPath (drop (length androidFolderPath) p)"

definition ensured_before :: "env \<Rightarrow> event list \<Rightarrow> nat \<Rightarrow> path \<Rightarrow> bool" where
  "ensured_before e evs j p = (existsSync e p \<or> MkdirSync p \<in> set (take j evs))"

definition no_pulls :: "event list \<Rightarrow> bool" where
  "no_pulls evs = list_all (\<lambda>x. \<not> is_pull x) evs"

definition staged :: "env \<Rightarrow> path \<Rightarrow> path \<Rightarrow> scan_results \<Rightarrow> event list \<Rightarrow> event list \<Rightarrow> bool" where
  "staged e ap lp fileList t3 new =
     (no_pulls t3
      \<and> (\<forall>x\<in>set (directories fileList). existsSync e (local_target e ap lp (fst x))
              \<or> MkdirSync (local_target e ap lp (fst x)) \<in> set t3)
      \<and> (\<forall>x\<in>set new. is_pull x \<longrightarrow>
              (\<exists>f\<in>set (files fileList). x = PullFile (fst f) (local_target e ap lp (fst f)))))"

section \<open>Properties\<close>

subsection \<open>The IPC handlers and single files\<close>




text \<open>The two single-file functions return \<open>true\<close> exactly when the \<open>invoke\<close> resolved.\<close>

lemma single_file_follows_invoke:
  "fst (transferLocalFileToAndroid e d lp rp) = (\<exists>r. invoke_push_file e d lp rp = Resolved r)"
  "fst (transferAndroidFileToLocal e d rp lp) = (\<exists>r. invoke_pull_file e d rp lp = Resolved r)"
  by (auto simp: transferLocalFileToAndroid_def transferAndroidFileToLocal_def split: promise.splits)

text \<open>
  C5.  A single-file transfer is to return \<open>true\<close> exactly when the push or pull
  succeeded, and \<open>false\<close> with a status message when it failed.  With a bridge whose
  \<open>push\<close> and \<open>pull\<close> fail, both functions of the application return \<open>true\<close> and set
  no status: the handler has turned the failure into a resolved
  \<open>{ success: false }\<close>, which the renderer does not read.
\<close>

theorem failed_copy_reported_as_success:
  "transferLocalFileToAndroid offline_env ''emulator-5554'' ''/home/u/a.txt'' ''/sdcard/a.txt''
     = (True, [PushFile ''/home/u/a.txt'' ''/sdcard/a.txt''])
   \<and> transferAndroidFileToLocal offline_env ''emulator-5554'' ''/sdcard/b.txt'' ''/home/u/b.txt''
     = (True, [PullFile ''/sdcard/b.txt'' ''/home/u/b.txt''])
   \<and> push offline_client ''emulator-5554'' ''/home/u/a.txt'' ''/sdcard/a.txt'' = Rejects ''device offline''
   \<and> pull offline_client ''emulator-5554'' ''/sdcard/b.txt'' = Rejects ''device offline''"
  by (simp add: transferLocalFileToAndroid_def transferAndroidFileToLocal_def offline_env_def
      app_env_def offline_client_def push_file_handler_def pull_file_handler_def)

subsection \<open>Classification of remote entries\<close>

lemma scanItems_visited:
  "scanItems p items acc = Inr res \<Longrightarrow>
     directories res = directories acc @ map as_directory (filter (\<lambda>x. dir_bit_set (snd x)) (visited p items))
     \<and> files res = files acc @ map as_file (filter (\<lambda>x. \<not> dir_bit_set (snd x)) (visited p items))"
proof (induction p items acc arbitrary: res rule: scanItems.induct)
  case (1 p results)
  then show ?case by simp
next
  case (2 p name mode sz sub items results)
  show ?case
  proof (cases "isDir mode")
    case True
    with "2.prems" obtain subResults where
      sub: "scanItems (itemPath_of p name) sub no_results = Inr subResults"
      and rest: "scanItems p items
               (results\<lparr>directories := directories results @ [(itemPath_of p name, name)] @ directories subResults,
                        files := files results @ files subResults\<rparr>) = Inr res"
      by (auto simp: Let_def split: sum.splits)
    from "2.IH"(1) [OF refl True sub] "2.IH"(2) [OF refl True sub rest] True
    show ?thesis
      by (simp add: no_results_def dir_bit_set_def isDir_def as_directory_def as_file_def)
  next
    case False
    with "2.prems" have rest:
      "scanItems p items (results\<lparr>files := files results @ [(itemPath_of p name, name, sz)]\<rparr>) = Inr res"
      by (simp add: Let_def)
    from "2.IH"(3) [OF refl False rest] False
    show ?thesis
      by (simp add: dir_bit_set_def isDir_def as_directory_def as_file_def)
  qed
next
  case (3 p name mode sz m items results)
  show ?case
  proof (cases "isDir mode")
    case True
    with "3.prems" show ?thesis by (simp add: Let_def)
  next
    case False
    with "3.prems" have rest:
      "scanItems p items (results\<lparr>files := files results @ [(itemPath_of p name, name, sz)]\<rparr>) = Inr res"
      by (simp add: Let_def)
    from "3.IH" [OF refl False rest] False
    show ?thesis
      by (simp add: dir_bit_set_def isDir_def as_directory_def as_file_def)
  qed
qed

lemma set_insertBy: "set (insertBy cmp x xs) = insert x (set xs)"
  by (induction xs) auto

lemma set_sortBy: "set (sortBy cmp xs) = set xs"
  by (induction xs) (auto simp: set_insertBy)

text \<open>
  C6 (as amended).  In the recursive scan and in the rendering of a file list a remote
  entry is a directory exactly when \<open>(mode & 0x4000) === 0x4000\<close>, whatever its name:
  the scan puts every entry it visits with the bit set into \<open>directories\<close> and every
  other one into \<open>files\<close>, and the rendered element carries \<open>data-is-dir\<close> \<open>'true'\<close>
  exactly for the entries with the bit set.  The click handlers read that attribute when
  the element of a selected name is found; when \<open>querySelector\<close> returns \<open>null\<close> they
  take the name for a directory exactly when it has no dot.
\<close>

theorem remote_entries_classified_by_mode:
  "(listAndroidFilesRecursively p (Inr items) = Inr res \<longrightarrow>
      directories res = map as_directory (filter (\<lambda>x. dir_bit_set (snd x)) (visited p items))
      \<and> files res = map as_file (filter (\<lambda>x. \<not> dir_bit_set (snd x)) (visited p items)))
   \<and> map data_isDir (renderFileList localeCompare items)
       = map (\<lambda>item. if dir_bit_set item then ''true'' else ''false'') (sortBy (compareItems localeCompare) items)
   \<and> set (sortBy (compareItems localeCompare) items) = set items
   \<and> selectedIsDirectory (QueryElement (Some (data_isDir (renderItem item)))) itemName = dir_bit_set item
   \<and> selectedIsDirectory QueryNull itemName = (CHR ''.'' \<notin> set itemName)"
proof -
  have scan: "listAndroidFilesRecursively p (Inr items) = Inr res \<longrightarrow>
      directories res = map as_directory (filter (\<lambda>x. dir_bit_set (snd x)) (visited p items))
      \<and> files res = map as_file (filter (\<lambda>x. \<not> dir_bit_set (snd x)) (visited p items))"
    using scanItems_visited [of p items no_results res]
    by (simp add: listAndroidFilesRecursively_def no_results_def)
  have render: "map data_isDir (renderFileList localeCompare items)
       = map (\<lambda>item. if dir_bit_set item then ''true'' else ''false'') (sortBy (compareItems localeCompare) items)"
    by (simp add: renderFileList_def renderItem_def dir_bit_set_def isDir_def)
  have sel: "selectedIsDirectory (QueryElement (Some (data_isDir (renderItem item)))) itemName = dir_bit_set item"
    by (simp add: selectedIsDirectory_def renderItem_def dir_bit_set_def isDir_def)
  have guess: "selectedIsDirectory QueryNull itemName = (CHR ''.'' \<notin> set itemName)"
    by (simp add: selectedIsDirectory_def)
  show ?thesis
    using scan render sel guess set_sortBy [of "compareItems localeCompare" items] by - (intro conjI; assumption)
qed

lemma sample_scan:
  "listAndroidFilesRecursively ''/sdcard'' (Inr sample_listing)
     = Inr \<lparr>files = [(''/sdcard/notes'', ''notes'', 12), (''/sdcard/DCIM/img.jpg'', ''img.jpg'', 2048)],
            directories = [(''/sdcard/DCIM'', ''DCIM''), (''/sdcard/archive.d'', ''archive.d'')]\<rparr>"
  by (simp add: listAndroidFilesRecursively_def sample_listing_def no_results_def isDir_def
      itemPath_of_def endsWith_slash_def Let_def)

theorem remote_entries_classified_by_mode_witness:
  "listAndroidFilesRecursively ''/sdcard'' (Inr sample_listing)
     = Inr \<lparr>files = [(''/sdcard/notes'', ''notes'', 12), (''/sdcard/DCIM/img.jpg'', ''img.jpg'', 2048)],
            directories = [(''/sdcard/DCIM'', ''DCIM''), (''/sdcard/archive.d'', ''archive.d'')]\<rparr>
   \<and> map as_directory (filter (\<lambda>x. dir_bit_set (snd x)) (visited ''/sdcard'' sample_listing))
     = [(''/sdcard/DCIM'', ''DCIM''), (''/sdcard/archive.d'', ''archive.d'')]"
  using remote_entries_classified_by_mode [of "''/sdcard''" sample_listing
      "\<lparr>files = [(''/sdcard/notes'', ''notes'', 12), (''/sdcard/DCIM/img.jpg'', ''img.jpg'', 2048)],
            directories = [(''/sdcard/DCIM'', ''DCIM''), (''/sdcard/archive.d'', ''archive.d'')]\<rparr>"]
    sample_scan
  by simp

text \<open>
  C6 as stated fails: for a selected name whose element is not found, the regular file
  \<open>notes\<close> (mode 0100644) is taken for a directory and the directory \<open>archive.d\<close>
  (mode 040755) for a file.
\<close>

theorem selected_item_guessed_from_name:
  "rmode (RNode ''notes'' 0x81A4 12 []) AND 0x4000 \<noteq> 0x4000
   \<and> data_isDir (renderItem (RNode ''notes'' 0x81A4 12 [])) = ''false''
   \<and> selectedIsDirectory QueryNull ''notes''
   \<and> rmode (RNode ''archive.d'' 0x41ED 4096 []) AND 0x4000 = 0x4000
   \<and> \<not> selectedIsDirectory QueryNull ''archive.d''"
  by (simp add: renderItem_def isDir_def selectedIsDirectory_def)

subsection \<open>The transfer flag and the selections\<close>

lemma step_inv:
  "pending s \<le> 1 \<and> isTransferring (app s) = (pending s = 1)
   \<Longrightarrow> pending (step s a) \<le> 1 \<and> isTransferring (app (step s a)) = (pending (step s a) = 1)"
  by (cases a)
     (auto simp: toAndroid_guard_def toLocal_guard_def transfer_begin_def transfer_finally_def
        clearSelections_def split: option.splits if_splits)

lemma run_inv:
  "pending s \<le> 1 \<and> isTransferring (app s) = (pending s = 1)
   \<Longrightarrow> pending (run s as) \<le> 1 \<and> isTransferring (app (run s as)) = (pending (run s as) = 1)"
proof (induction as arbitrary: s)
  case Nil
  then show ?case by (simp add: run_def)
next
  case (Cons a as)
  have "run s (a # as) = run (step s a) as" by (simp add: run_def)
  with Cons.IH [OF step_inv [OF Cons.prems]] show ?case by simp
qed

lemma click_android_finally:
  "toAndroid_guard st = None \<Longrightarrow> fst (transferToAndroid_click e look st) = transfer_finally (transfer_begin st)"
  by (simp add: transferToAndroid_click_def Let_def split_def)

lemma click_local_finally:
  "toLocal_guard st = None \<Longrightarrow> fst (transferToLocal_click e q l st) = transfer_finally (transfer_begin st)"
  by (simp add: transferToLocal_click_def Let_def split_def)

text \<open>A click while a transfer is in flight returns at one of the guards: it changes
  nothing and does no transfer work, whatever is selected.\<close>

lemma click_while_transferring:
  "isTransferring st \<Longrightarrow>
     transferToAndroid_click e look st = (st, [SetStatus (action_guard_status True st)])
     \<and> transferToLocal_click e q l st = (st, [SetStatus (action_guard_status False st)])"
  by (simp add: transferToAndroid_click_def transferToLocal_click_def toAndroid_guard_def
      toLocal_guard_def action_guard_status_def)

text \<open>
  C8.  At most one transfer is in flight: from the start-up state, after any sequence
  of clicks, selections and handler completions, at most one handler is between its
  guards and its \<open>finally\<close>, and \<open>isTransferring\<close> is true exactly then.  A handler sets
  the flag right after its guards, before any transfer work, and its \<open>finally\<close> resets
  it.  An attempt to start a transfer while the flag is set, that is a click that would
  pass the guards were the flag not set, changes nothing, does no transfer work and is
  answered with the status \<open>Transfer already in progress\<close>; it is not queued.
\<close>

theorem one_transfer_at_a_time:
  "pending (run (initial home) as) \<le> 1
   \<and> isTransferring (app (run (initial home) as)) = (pending (run (initial home) as) = 1)
   \<and> (isTransferring st \<and> toAndroid_guard (st\<lparr>isTransferring := False\<rparr>) = None \<longrightarrow>
        transferToAndroid_click e look st = (st, [SetStatus TransferAlreadyInProgress]))
   \<and> (isTransferring st' \<and> toLocal_guard (st'\<lparr>isTransferring := False\<rparr>) = None \<longrightarrow>
        transferToLocal_click e q l st' = (st', [SetStatus TransferAlreadyInProgress]))
   \<and> (toAndroid_guard st1 = None \<longrightarrow>
        isTransferring (transfer_begin st1) \<and> \<not> isTransferring (fst (transferToAndroid_click e look st1)))
   \<and> (toLocal_guard st2 = None \<longrightarrow>
        isTransferring (transfer_begin st2) \<and> \<not> isTransferring (fst (transferToLocal_click e q l st2)))"
proof -
  have "pending (initial home) \<le> 1 \<and> isTransferring (app (initial home)) = (pending (initial home) = 1)"
    by (simp add: initial_def)
  from run_inv [OF this]
  have inv: "pending (run (initial home) as) \<le> 1
     \<and> isTransferring (app (run (initial home) as)) = (pending (run (initial home) as) = 1)" .
  have ra: "isTransferring st \<and> toAndroid_guard (st\<lparr>isTransferring := False\<rparr>) = None \<longrightarrow>
        transferToAndroid_click e look st = (st, [SetStatus TransferAlreadyInProgress])"
    by (auto simp: transferToAndroid_click_def toAndroid_guard_def split: if_splits)
  have rl: "isTransferring st' \<and> toLocal_guard (st'\<lparr>isTransferring := False\<rparr>) = None \<longrightarrow>
        transferToLocal_click e q l st' = (st', [SetStatus TransferAlreadyInProgress])"
    by (auto simp: transferToLocal_click_def toLocal_guard_def split: if_splits)
  have a: "toAndroid_guard st1 = None \<longrightarrow>
        isTransferring (transfer_begin st1) \<and> \<not> isTransferring (fst (transferToAndroid_click e look st1))"
    by (simp add: click_android_finally transfer_finally_def transfer_begin_def clearSelections_def)
  have b: "toLocal_guard st2 = None \<longrightarrow>
        isTransferring (transfer_begin st2) \<and> \<not> isTransferring (fst (transferToLocal_click e q l st2))"
    by (simp add: click_local_finally transfer_finally_def transfer_begin_def clearSelections_def)
  show ?thesis using inv ra rl a b by - (intro conjI; (elim conjE)?; assumption)
qed

theorem one_transfer_at_a_time_witness:
  "isTransferring busy_state \<and> toAndroid_guard (busy_state\<lparr>isTransferring := False\<rparr>) = None
   \<and> isTransferring busy_for_local \<and> toLocal_guard (busy_for_local\<lparr>isTransferring := False\<rparr>) = None
   \<and> toAndroid_guard ready_state = None \<and> toLocal_guard ready_for_local = None
   \<and> transferToAndroid_click offline_env (\<lambda>p. IsFile) busy_state
       = (busy_state, [SetStatus TransferAlreadyInProgress])
   \<and> transferToLocal_click offline_env (\<lambda>n. QueryNull) (\<lambda>p. Inl ''offline'') busy_for_local
       = (busy_for_local, [SetStatus TransferAlreadyInProgress])
   \<and> \<not> isTransferring (fst (transferToAndroid_click offline_env (\<lambda>p. IsFile) ready_state))
   \<and> \<not> isTransferring (fst (transferToLocal_click offline_env (\<lambda>n. QueryNull) (\<lambda>p. Inl ''offline'') ready_for_local))
   \<and> pending (run (initial ''/home/u'')
        [SelectDevice (Some ''emulator-5554''), SelectLocal [''a.txt''], ClickTransferToAndroid,
         ClickTransferToAndroid, SelectAndroid [''b.txt''], ClickTransferToLocal]) = 1"
  using one_transfer_at_a_time [where home = "''/home/u''"
        and as = "[SelectDevice (Some ''emulator-5554''), SelectLocal [''a.txt''], ClickTransferToAndroid,
         ClickTransferToAndroid, SelectAndroid [''b.txt''], ClickTransferToLocal]"
        and st = busy_state and st' = busy_for_local and e = offline_env and look = "\<lambda>p. IsFile"
        and q = "\<lambda>n. QueryNull" and l = "\<lambda>p. Inl ''offline''" and ?st1.0 = ready_state
        and ?st2.0 = ready_for_local]
  by (simp add: busy_state_def busy_for_local_def ready_state_def ready_for_local_def toAndroid_guard_def
      toLocal_guard_def run_def initial_def transfer_begin_def)

text \<open>
  C9 (as amended).  Both selection sets are empty when a transfer handler that passed its
  guards has run its \<open>finally\<close>; the start of the transfer (setting the flag) leaves
  both sets as they are, since the handler iterates over its selection.
\<close>

theorem selections_cleared_at_end:
  "(toAndroid_guard st1 = None \<longrightarrow>
      localSelectedItems (fst (transferToAndroid_click e look st1)) = []
      \<and> androidSelectedItems (fst (transferToAndroid_click e look st1)) = [])
   \<and> (toLocal_guard st2 = None \<longrightarrow>
      localSelectedItems (fst (transferToLocal_click e q l st2)) = []
      \<and> androidSelectedItems (fst (transferToLocal_click e q l st2)) = [])
   \<and> localSelectedItems (transfer_begin st) = localSelectedItems st
   \<and> androidSelectedItems (transfer_begin st) = androidSelectedItems st
   \<and> localSelectedItems (transfer_finally st) = []
   \<and> androidSelectedItems (transfer_finally st) = []"
  by (simp add: click_android_finally click_local_finally transfer_finally_def transfer_begin_def
      clearSelections_def)

theorem selections_cleared_at_end_witness:
  "toAndroid_guard ready_state = None \<and> toLocal_guard ready_for_local = None
   \<and> localSelectedItems (fst (transferToAndroid_click offline_env (\<lambda>p. IsFile) ready_state)) = []
   \<and> androidSelectedItems (fst (transferToLocal_click offline_env (\<lambda>n. QueryNull) (\<lambda>p. Inl ''offline'') ready_for_local)) = []"
  using selections_cleared_at_end [of ready_state offline_env "\<lambda>p. IsFile" ready_for_local
      "\<lambda>n. QueryNull" "\<lambda>p. Inl ''offline''" ready_state]
  by (simp add: ready_state_def ready_for_local_def busy_state_def toAndroid_guard_def toLocal_guard_def)

text \<open>
  C9 as stated fails: after the start of the transfer the local selection still holds
  \<open>a.txt\<close>, and the handler goes on to push that file.
\<close>

theorem selection_kept_at_start:
  "toAndroid_guard ready_state = None
   \<and> localSelectedItems (transfer_begin ready_state) = [''a.txt'']
   \<and> snd (transferToAndroid_click offline_env (\<lambda>p. IsFile) ready_state)
       = [SetStatus PreparingTransferToAndroid, SetStatus (TransferringItem 1 1 ''a.txt''),
          PushFile ''/home/u/a.txt'' ''/sdcard/a.txt'',
          SetStatus (TransferComplete 1 0), SetStatus TransferCompletedRefreshed]"
  by (simp add: ready_state_def busy_state_def toAndroid_guard_def transfer_begin_def
      transferToAndroid_click_def Let_def deviceId_of_def offline_env_def app_env_def simple_join_def simple_basename_def
      sanitizeForAndroid_def transferLocalFileToAndroid_def push_file_handler_def offline_client_def)

subsection \<open>Counting in a folder transfer\<close>

text \<open>
  C1.  With exactly one failing copy among N files a folder transfer is to return
  \<open>{ success: N - 1, errors: 1 }\<close>.  For a folder with one subdirectory of two files,
  one of which the bridge refuses: the transfer to Android returns
  \<open>{ success: 4, errors: 0 }\<close>, because the handler resolves the failed push and
  \<open>processDirectory\<close> adds the counters returned by the recursive call to themselves;
  even when the \<open>invoke\<close> itself is rejected for that file it returns
  \<open>{ success: 2, errors: 2 }\<close>; the transfer to local returns
  \<open>{ success: 2, errors: 0 }\<close>.
\<close>

theorem one_failed_copy_miscounted:
  "countFilesAt (Inr local_sub_two) = Inr 2
   \<and> fst (transferLocalFolderToAndroid one_bad_env ''emulator-5554'' ''/home/u/root'' ''/sdcard/root''
          (Inr local_sub_two)) = \<lparr>fr_success = 4, fr_errors = 0\<rparr>
   \<and> fst (transferLocalFolderToAndroid rejecting_env ''emulator-5554'' ''/home/u/root'' ''/sdcard/root''
          (Inr local_sub_two)) = \<lparr>fr_success = 2, fr_errors = 2\<rparr>
   \<and> fst (transferAndroidFolderToLocal one_bad_env ''emulator-5554'' ''/sdcard/DCIM'' ''/home/u/DCIM''
          (Inr remote_camera_two)) = \<lparr>fr_success = 2, fr_errors = 0\<rparr>"
  by (simp add: countFilesAt_def local_sub_two_def remote_camera_two_def transferLocalFolderToAndroid_def
      transferAndroidFolderToLocal_def scanAndPull_def listAndroidFilesRecursively_def
      one_bad_env_def rejecting_env_def app_env_def one_bad_client_def online_client_def
      push_file_handler_def pull_file_handler_def create_directory_handler_def
      simple_join_def emit_def pushOne_def pullOne_def Let_def isDir_def itemPath_of_def endsWith_slash_def no_results_def
      ok_result_def)

subsection \<open>A failed scan\<close>

text \<open>
  C2 (as amended).  When the count of the local source fails, the transfer to Android
  returns \<open>{ success: 0, errors: 1 }\<close> and has only set the status
  \<open>Error counting files\<close>: nothing is created or copied.  When the scan of the remote
  source fails, the transfer to local returns \<open>{ success: 0, errors: 1 }\<close>, creates no
  subdirectory and pulls no file; its only act on the destination is the \<open>mkdirSync\<close> of
  the destination folder itself, made before the scan when that folder did not exist.
\<close>

theorem failed_scan_effects:
  "(countFilesAt root = Inl m \<longrightarrow>
      transferLocalFolderToAndroid e d lp ap root
        = (\<lparr>fr_success = 0, fr_errors = 1\<rparr>, [SetStatus (ErrorCountingFiles m)]))
   \<and> (listAndroidFilesRecursively ap' listing = Inl m' \<longrightarrow>
      fst (transferAndroidFolderToLocal e' d' ap' lp' listing) = \<lparr>fr_success = 0, fr_errors = 1\<rparr>
      \<and> filter touches_destination (snd (transferAndroidFolderToLocal e' d' ap' lp' listing))
          = (if existsSync e' lp' then [] else [MkdirSync lp']))"
  by (auto simp: countFilesAt_def transferLocalFolderToAndroid_def count_failed_def
      transferAndroidFolderToLocal_def scanAndPull_def split: sum.splits option.splits)

theorem failed_scan_effects_witness:
  "countFilesAt (Inr [LFile ''a.txt'', LDenied ''private'' ''EACCES: permission denied'', LFile ''b.txt''])
     = Inl ''EACCES: permission denied''
   \<and> listAndroidFilesRecursively ''/sdcard/DCIM'' (Inl ''device offline'') = Inl ''device offline''
   \<and> transferLocalFolderToAndroid offline_env ''emulator-5554'' ''/home/u/root'' ''/sdcard/root''
        (Inr [LFile ''a.txt'', LDenied ''private'' ''EACCES: permission denied'', LFile ''b.txt''])
       = (\<lparr>fr_success = 0, fr_errors = 1\<rparr>, [SetStatus (ErrorCountingFiles ''EACCES: permission denied'')])
   \<and> filter touches_destination
        (snd (transferAndroidFolderToLocal offline_env ''emulator-5554'' ''/sdcard/DCIM'' ''/home/u/DCIM''
           (Inl ''device offline''))) = [MkdirSync ''/home/u/DCIM'']"
  using failed_scan_effects [of "Inr [LFile ''a.txt'', LDenied ''private'' ''EACCES: permission denied'', LFile ''b.txt'']"
      "''EACCES: permission denied''" offline_env "''emulator-5554''" "''/home/u/root''" "''/sdcard/root''"
      "''/sdcard/DCIM''" "Inl ''device offline''" "''device offline''" offline_env "''emulator-5554''"
      "''/home/u/DCIM''"]
  by (simp add: countFilesAt_def listAndroidFilesRecursively_def offline_env_def app_env_def)

text \<open>
  C2 as stated fails for the transfer to local: the listing of the remote folder is
  rejected, and the local destination folder has been created.
\<close>

theorem failed_scan_creates_base_folder:
  "listAndroidFilesRecursively ''/sdcard/DCIM'' (Inl ''device offline'') = Inl ''device offline''
   \<and> transferAndroidFolderToLocal offline_env ''emulator-5554'' ''/sdcard/DCIM'' ''/home/u/DCIM''
        (Inl ''device offline'')
     = (\<lparr>fr_success = 0, fr_errors = 1\<rparr>,
        [MkdirSync ''/home/u/DCIM'', SetStatus ScanningAndroid, SetStatus (StatusError ''device offline'')])"
  by (simp add: transferAndroidFolderToLocal_def scanAndPull_def listAndroidFilesRecursively_def
      offline_env_def app_env_def)

subsection \<open>Progress counters\<close>

lemma progress_counters_append [simp]:
  "progress_counters (xs @ ys) = progress_counters xs @ progress_counters ys"
  by (simp add: progress_counters_def)

lemma copy_attempts_append [simp]:
  "copy_attempts (xs @ ys) = copy_attempts xs + copy_attempts ys"
  by (simp add: copy_attempts_def)

lemma counted_refl: "counted s s"
  by (simp add: counted_def progress_counters_def copy_attempts_def)

lemma counted_trans: "counted s s1 \<Longrightarrow> counted s1 s2 \<Longrightarrow> counted s s2"
proof -
  assume "counted s s1" "counted s1 s2"
  then obtain k new k' new' where
    a: "trace s1 = trace s @ new" "processedFiles s1 = processedFiles s + k" "copy_attempts new = k"
       "progress_counters new = [Suc (processedFiles s)..<Suc (processedFiles s + k)]"
    and b: "trace s2 = trace s1 @ new'" "processedFiles s2 = processedFiles s1 + k'" "copy_attempts new' = k'"
       "progress_counters new' = [Suc (processedFiles s1)..<Suc (processedFiles s1 + k')]"
    unfolding counted_def by blast
  have "[Suc (processedFiles s)..<Suc (processedFiles s + k)]
          @ [Suc (processedFiles s + k)..<Suc (processedFiles s + k + k')]
        = [Suc (processedFiles s)..<Suc (processedFiles s + (k + k'))]"
    by (metis add.assoc add_Suc le_add1 upt_add_eq_append)
  with a b show ?thesis
    unfolding counted_def
    by (intro exI [of _ "k + k'"] exI [of _ "new @ new'"]) simp
qed

lemma counted_same:
  "trace s' = trace s @ new \<Longrightarrow> processedFiles s' = processedFiles s \<Longrightarrow> copy_attempts new = 0
   \<Longrightarrow> progress_counters new = [] \<Longrightarrow> counted s s'"
  unfolding counted_def by (intro exI [of _ 0] exI [of _ new]) simp

lemma counted_one:
  "trace s' = trace s @ new \<Longrightarrow> processedFiles s' = Suc (processedFiles s) \<Longrightarrow> copy_attempts new = 1
   \<Longrightarrow> progress_counters new = [Suc (processedFiles s)] \<Longrightarrow> counted s s'"
  unfolding counted_def by (intro exI [of _ 1] exI [of _ new]) simp

lemma pushOne_counted: "counted s (pushOne e d T l r name s)"
  by (cases "invoke_push_file e d l r")
     (auto intro!: counted_one simp: pushOne_def Let_def emit_def progress_counters_def copy_attempts_def)

lemma pullOne_counted: "counted s (pullOne e d T r l name s)"
  by (cases "invoke_pull_file e d r l")
     (auto intro!: counted_one simp: pullOne_def Let_def emit_def progress_counters_def copy_attempts_def)

lemma counted_tally:
  "counted s s' \<Longrightarrow> counted s (s'\<lparr>successCount := a, errorCount := b\<rparr>)"
  by (simp add: counted_def)

lemma counted_errors:
  "counted s s' \<Longrightarrow> counted s (s'\<lparr>errorCount := b\<rparr>)"
  by (simp add: counted_def)

lemma create_step_counted: "counted s (emit (CreateDirectory p) s)"
  by (rule counted_same [where new = "[CreateDirectory p]"])
     (simp_all add: emit_def progress_counters_def copy_attempts_def)

lemma processDirectory_counted:
  "counted s (processDirectory e d T ld ad items s)"
proof (induction e d T ld ad items s rule: processDirectory.induct)
  case (1 e d T ld ad s)
  show ?case by (simp add: counted_refl)
next
  case (2 e d T ld ad name items s)
  show ?case
    using counted_trans [OF pushOne_counted "2.IH" [OF refl refl]]
    by (simp add: Let_def)
next
  case (3 e d T ld ad name sub items s)
  let ?s1 = "emit (CreateDirectory (ad @ ''/'' @ name)) s"
  show ?case
  proof (cases "invoke_create_directory e d (ad @ ''/'' @ name)")
    case (Rejected m)
    have a: "counted s (?s1\<lparr>errorCount := errorCount ?s1 + 1\<rparr>)"
      by (rule counted_errors [OF create_step_counted])
    have b: "counted (?s1\<lparr>errorCount := errorCount ?s1 + 1\<rparr>)
       (processDirectory e d T ld ad items (?s1\<lparr>errorCount := errorCount ?s1 + 1\<rparr>))"
      using "3.IH"(2) [OF refl refl refl refl] Rejected by simp
    show ?thesis using counted_trans [OF a b] Rejected by (simp add: Let_def)
  next
    case (Resolved r)
    let ?s' = "processDirectory e d T (path_join e ld name) (ad @ ''/'' @ name) sub ?s1"
    let ?s2 = "?s'\<lparr>successCount := successCount ?s' + successCount ?s',
                     errorCount := errorCount ?s' + errorCount ?s'\<rparr>"
    have "counted ?s1 ?s'"
      using "3.IH"(1) [OF refl refl refl Resolved] by simp
    from counted_trans [OF create_step_counted this]
    have a: "counted s ?s2"
      by (rule counted_tally)
    have b: "counted ?s2 (processDirectory e d T ld ad items ?s2)"
      using "3.IH"(2) [OF refl refl refl refl] Resolved by (simp add: Let_def)
    show ?thesis using counted_trans [OF a b] Resolved by (simp add: Let_def)
  qed
next
  case (4 e d T ld ad name m items s)
  let ?s1 = "emit (CreateDirectory (ad @ ''/'' @ name)) s"
  have a: "counted s (?s1\<lparr>errorCount := errorCount ?s1 + 1\<rparr>)"
    by (rule counted_errors [OF create_step_counted])
  have b: "counted (?s1\<lparr>errorCount := errorCount ?s1 + 1\<rparr>)
       (processDirectory e d T ld ad items (?s1\<lparr>errorCount := errorCount ?s1 + 1\<rparr>))"
    using "4.IH" [OF refl refl refl] by simp
  show ?case using counted_trans [OF a b] by (simp add: Let_def)
qed

lemma pushOne_processed: "processedFiles (pushOne e d T l r name s) = Suc (processedFiles s)"
  by (simp add: pushOne_def Let_def emit_def split: promise.splits)

lemma pullFiles_counted: "counted s (pullFiles e d T ap lp fs s)"
proof (induction e d T ap lp fs s rule: pullFiles.induct)
  case (1 e d T ap lp s)
  show ?case by (simp add: counted_refl)
next
  case (2 e d T ap lp fpath fname fsize fs s)
  show ?case
    using counted_trans [OF pullOne_counted "2.IH" [OF refl refl]]
    by (simp add: Let_def)
qed

lemma pullOne_processed: "processedFiles (pullOne e d T r l name s) = Suc (processedFiles s)"
  by (simp add: pullOne_def Let_def emit_def split: promise.splits)

lemma pullFiles_processed:
  "processedFiles (pullFiles e d T ap lp fs s) = processedFiles s + length fs"
  by (induction e d T ap lp fs s rule: pullFiles.induct) (simp_all add: Let_def pullOne_processed)

lemma createDirectories_quiet:
  "createDirectories e ap lp dirs t = Inr t' \<Longrightarrow>
     progress_counters t' = progress_counters t \<and> copy_attempts t' = copy_attempts t"
  "createDirectories e ap lp dirs t = Inl (m, t') \<Longrightarrow>
     progress_counters t' = progress_counters t \<and> copy_attempts t' = copy_attempts t"
  by (induction e ap lp dirs t rule: createDirectories.induct)
     (auto simp: Let_def progress_counters_def copy_attempts_def split: if_splits option.splits)

lemma createDirectories_succeeds:
  "\<forall>p. mkdirSync e p = None \<Longrightarrow> \<exists>t'. createDirectories e ap lp dirs t = Inr t'"
  by (induction e ap lp dirs t rule: createDirectories.induct) (auto simp: Let_def)

lemma countFiles_processed:
  "\<forall>p. \<exists>r. invoke_create_directory e d p = Resolved r \<Longrightarrow> countFiles items t = Inr t' \<Longrightarrow>
     processedFiles (processDirectory e d T ld ad items s) + t = processedFiles s + t'"
proof (induction e d T ld ad items s arbitrary: t t' rule: processDirectory.induct)
  case (1 e d T ld ad s)
  then show ?case by simp
next
  case (2 e d T ld ad name items s)
  from "2.prems"(2) have "countFiles items (t + 1) = Inr t'" by simp
  from "2.IH" [OF refl refl "2.prems"(1) this]
  show ?case by (simp add: Let_def pushOne_processed)
next
  case (3 e d T ld ad name sub items s)
  let ?s1 = "emit (CreateDirectory (ad @ ''/'' @ name)) s"
  from "3.prems"(1) obtain r where res: "invoke_create_directory e d (ad @ ''/'' @ name) = Resolved r"
    by blast
  from "3.prems"(2) obtain t1 where c1: "countFiles sub t = Inr t1" and c2: "countFiles items t1 = Inr t'"
    by (auto split: sum.splits)
  let ?s' = "processDirectory e d T (path_join e ld name) (ad @ ''/'' @ name) sub ?s1"
  let ?s2 = "?s'\<lparr>successCount := successCount ?s' + successCount ?s',
                   errorCount := errorCount ?s' + errorCount ?s'\<rparr>"
  have a: "processedFiles ?s' + t = processedFiles s + t1"
    using "3.IH"(1) [OF refl refl refl res "3.prems"(1) c1] by (simp add: emit_def)
  have b: "processedFiles (processDirectory e d T ld ad items ?s2) + t1 = processedFiles ?s' + t'"
    using "3.IH"(2) [OF refl refl refl refl "3.prems"(1) c2] res by (simp add: Let_def)
  from a b have "processedFiles (processDirectory e d T ld ad items ?s2) + t = processedFiles s + t'"
    by arith
  then show ?case using res by (simp add: Let_def)
next
  case (4 e d T ld ad name m items s)
  then show ?case by simp
qed

lemma counted_from_start:
  assumes "counted s s'" "processedFiles s = 0" "progress_counters (trace s) = []"
    "copy_attempts (trace s) = 0"
  shows "progress_counters (trace s') = [1..<Suc (copy_attempts (trace s'))]
         \<and> copy_attempts (trace s') = processedFiles s'"
  using assms unfolding counted_def by auto

lemma local_folder_progress:
  "progress_counters (snd (transferLocalFolderToAndroid e d lp ap root))
     = [1..<Suc (copy_attempts (snd (transferLocalFolderToAndroid e d lp ap root)))]"
proof (cases "\<exists>items n r. root = Inr items \<and> countFiles items 0 = Inr n
                \<and> invoke_create_directory e d ap = Resolved r")
  case True
  then obtain items n r where h: "root = Inr items" "countFiles items 0 = Inr n"
      "invoke_create_directory e d ap = Resolved r" by blast
  let ?s0 = "\<lparr>processedFiles = 0, successCount = 0, errorCount = 0,
               trace = [SetStatus (PreparingFiles n (path_basename e lp)), CreateDirectory ap]\<rparr>"
  have "progress_counters (trace (processDirectory e d n lp ap items ?s0))
          = [1..<Suc (copy_attempts (trace (processDirectory e d n lp ap items ?s0)))]"
    using counted_from_start [OF processDirectory_counted [of ?s0 e d n lp ap items]]
    by (simp add: progress_counters_def copy_attempts_def)
  with h show ?thesis by (simp add: transferLocalFolderToAndroid_def Let_def)
next
  case False
  then show ?thesis
    by (auto simp: transferLocalFolderToAndroid_def count_failed_def Let_def progress_counters_def
        copy_attempts_def split: sum.splits promise.splits)
qed

lemma local_folder_attempts:
  assumes "countFilesAt root = Inr n" "\<forall>p. \<exists>r. invoke_create_directory e d p = Resolved r"
  shows "copy_attempts (snd (transferLocalFolderToAndroid e d lp ap root)) = n"
proof -
  from assms(1) obtain items where h: "root = Inr items" "countFiles items 0 = Inr n"
    by (auto simp: countFilesAt_def split: sum.splits)
  from assms(2) obtain r where r: "invoke_create_directory e d ap = Resolved r" by blast
  let ?s0 = "\<lparr>processedFiles = 0, successCount = 0, errorCount = 0,
               trace = [SetStatus (PreparingFiles n (path_basename e lp)), CreateDirectory ap]\<rparr>"
  have "copy_attempts (trace (processDirectory e d n lp ap items ?s0))
          = processedFiles (processDirectory e d n lp ap items ?s0)"
    using counted_from_start [OF processDirectory_counted [of ?s0 e d n lp ap items]]
    by (simp add: progress_counters_def copy_attempts_def)
  moreover have "processedFiles (processDirectory e d n lp ap items ?s0) = n"
    using countFiles_processed [OF assms(2) h(2), of n lp ap ?s0] by simp
  ultimately show ?thesis using h r by (simp add: transferLocalFolderToAndroid_def Let_def)
qed

lemma scanAndPull_progress:
  assumes "progress_counters t0 = []" "copy_attempts t0 = 0"
  shows "progress_counters (snd (scanAndPull e d ap lp listing t0))
     = [1..<Suc (copy_attempts (snd (scanAndPull e d ap lp listing t0)))]"
proof (cases "listAndroidFilesRecursively ap listing")
  case (Inl m)
  with assms show ?thesis
    by (simp add: scanAndPull_def Let_def progress_counters_def copy_attempts_def)
next
  case (Inr fileList)
  let ?t2 = "(t0 @ [SetStatus ScanningAndroid]) @ [SetStatus (PreparingFromAndroid (length (files fileList)))]"
  have q: "progress_counters ?t2 = []" "copy_attempts ?t2 = 0"
    using assms by (simp_all add: progress_counters_def copy_attempts_def)
  show ?thesis
  proof (cases "createDirectories e ap lp (directories fileList) ?t2")
    case (Inl x)
    obtain m t3 where x: "x = (m, t3)" by (cases x)
    from createDirectories_quiet(2) [OF Inl [unfolded x]] q
    have "progress_counters t3 = []" "copy_attempts t3 = 0" by simp_all
    with Inl x \<open>listAndroidFilesRecursively ap listing = Inr fileList\<close> show ?thesis
      by (simp add: scanAndPull_def Let_def progress_counters_def copy_attempts_def)
  next
    case (Inr t3)
    from createDirectories_quiet(1) [OF Inr] q
    have t3: "progress_counters t3 = []" "copy_attempts t3 = 0" by simp_all
    let ?s0 = "\<lparr>processedFiles = 0, successCount = 0, errorCount = 0, trace = t3\<rparr>"
    have "progress_counters (trace (pullFiles e d (length (files fileList)) ap lp (files fileList) ?s0))
          = [1..<Suc (copy_attempts (trace (pullFiles e d (length (files fileList)) ap lp (files fileList) ?s0)))]"
      using counted_from_start [OF pullFiles_counted [of ?s0 e d "length (files fileList)" ap lp "files fileList"]] t3
      by simp
    with Inr \<open>listAndroidFilesRecursively ap listing = Inr fileList\<close> show ?thesis
      by (simp add: scanAndPull_def Let_def)
  qed
qed

lemma android_folder_cases:
  "(existsSync e lp \<and> transferAndroidFolderToLocal e d ap lp listing = scanAndPull e d ap lp listing [])
   \<or> (\<not> existsSync e lp \<and> mkdirSync e lp = None
       \<and> transferAndroidFolderToLocal e d ap lp listing = scanAndPull e d ap lp listing [MkdirSync lp])
   \<or> (\<exists>m. \<not> existsSync e lp \<and> mkdirSync e lp = Some m
       \<and> transferAndroidFolderToLocal e d ap lp listing
           = (\<lparr>fr_success = 0, fr_errors = 1\<rparr>,
              [MkdirSync lp, SetStatus (ErrorCreatingFolderLocally m)]))"
  by (cases "mkdirSync e lp") (simp_all add: transferAndroidFolderToLocal_def)

lemma quiet_prefixes:
  "progress_counters [MkdirSync lp] = []" "copy_attempts [MkdirSync lp] = 0"
  "progress_counters [] = []" "copy_attempts [] = 0"
  "progress_counters [MkdirSync lp, SetStatus (ErrorCreatingFolderLocally m)] = []"
  "copy_attempts [MkdirSync lp, SetStatus (ErrorCreatingFolderLocally m)] = 0"
  by (simp_all add: progress_counters_def copy_attempts_def)

lemma android_folder_progress:
  "progress_counters (snd (transferAndroidFolderToLocal e d ap lp listing))
     = [1..<Suc (copy_attempts (snd (transferAndroidFolderToLocal e d ap lp listing)))]"
  using android_folder_cases [of e lp d ap listing]
        scanAndPull_progress [OF quiet_prefixes(1,2), of e d ap lp listing lp]
        scanAndPull_progress [OF quiet_prefixes(3,4), of e d ap lp listing]
  by (auto simp: quiet_prefixes)

lemma scanAndPull_attempts:
  assumes "listAndroidFilesRecursively ap listing = Inr fileList" "\<forall>p. mkdirSync e p = None"
    "copy_attempts t0 = 0" "progress_counters t0 = []"
  shows "copy_attempts (snd (scanAndPull e d ap lp listing t0)) = length (files fileList)"
proof -
  let ?t2 = "(t0 @ [SetStatus ScanningAndroid]) @ [SetStatus (PreparingFromAndroid (length (files fileList)))]"
  have q: "progress_counters ?t2 = []" "copy_attempts ?t2 = 0"
    using assms by (simp_all add: progress_counters_def copy_attempts_def)
  from createDirectories_succeeds [OF assms(2)] obtain t3 where
    t3: "createDirectories e ap lp (directories fileList) ?t2 = Inr t3" by blast
  from createDirectories_quiet(1) [OF t3] q
  have t3q: "progress_counters t3 = []" "copy_attempts t3 = 0" by simp_all
  let ?s0 = "\<lparr>processedFiles = 0, successCount = 0, errorCount = 0, trace = t3\<rparr>"
  have "copy_attempts (trace (pullFiles e d (length (files fileList)) ap lp (files fileList) ?s0))
          = processedFiles (pullFiles e d (length (files fileList)) ap lp (files fileList) ?s0)"
    using counted_from_start [OF pullFiles_counted [of ?s0 e d "length (files fileList)" ap lp "files fileList"]] t3q
    by simp
  then show ?thesis using t3 assms(1) by (simp add: scanAndPull_def Let_def pullFiles_processed)
qed

lemma android_folder_attempts:
  assumes "listAndroidFilesRecursively ap listing = Inr fileList" "\<forall>p. mkdirSync e p = None"
  shows "copy_attempts (snd (transferAndroidFolderToLocal e d ap lp listing)) = length (files fileList)"
  using android_folder_cases [of e lp d ap listing] assms(2)
    scanAndPull_attempts [OF assms quiet_prefixes(2,1), of d lp lp]
    scanAndPull_attempts [OF assms quiet_prefixes(4,3), of d lp]
  by auto

text \<open>
  C7 (as amended).  In both directions the \<open>processed\<close> counters of the per-file status
  events are exactly 1, 2, ..., k, where k is the number of files whose copy is attempted:
  one event per attempted file, whether the copy succeeded or failed.  And k is the
  number N of files of the source when the scan succeeds and no directory creation fails:
  no \<open>create-directory\<close> is rejected on the way to Android, no \<open>mkdirSync\<close> throws on
  the way to local.
\<close>

theorem progress_numbers_attempted_copies:
  "progress_counters (snd (transferLocalFolderToAndroid e d lp ap root))
     = [1..<Suc (copy_attempts (snd (transferLocalFolderToAndroid e d lp ap root)))]
   \<and> progress_counters (snd (transferAndroidFolderToLocal e' d' ap' lp' listing))
     = [1..<Suc (copy_attempts (snd (transferAndroidFolderToLocal e' d' ap' lp' listing)))]
   \<and> (countFilesAt root = Inr n \<and> (\<forall>p. \<exists>r. invoke_create_directory e d p = Resolved r) \<longrightarrow>
        copy_attempts (snd (transferLocalFolderToAndroid e d lp ap root)) = n)
   \<and> (listAndroidFilesRecursively ap' listing = Inr fileList \<and> (\<forall>p. mkdirSync e' p = None) \<longrightarrow>
        copy_attempts (snd (transferAndroidFolderToLocal e' d' ap' lp' listing)) = length (files fileList))"
  using local_folder_progress [of e d lp ap root] android_folder_progress [of e' d' ap' lp' listing]
    local_folder_attempts [of root n e d lp ap] android_folder_attempts [of ap' listing fileList e' d' lp']
  by - (intro conjI impI; (elim conjE)?; assumption?; simp)

lemma camera_scan:
  "listAndroidFilesRecursively ''/sdcard/DCIM'' (Inr remote_camera_two)
     = Inr \<lparr>files = [(''/sdcard/DCIM/Camera/a.jpg'', ''a.jpg'', 2048),
                     (''/sdcard/DCIM/Camera/b.jpg'', ''b.jpg'', 1024)],
            directories = [(''/sdcard/DCIM/Camera'', ''Camera'')]\<rparr>"
  by (simp add: listAndroidFilesRecursively_def remote_camera_two_def no_results_def isDir_def
      itemPath_of_def endsWith_slash_def Let_def)

theorem progress_numbers_attempted_copies_witness:
  "countFilesAt (Inr local_sub_two) = Inr 2
   \<and> (\<forall>p. \<exists>r. invoke_create_directory one_bad_env ''emulator-5554'' p = Resolved r)
   \<and> listAndroidFilesRecursively ''/sdcard/DCIM'' (Inr remote_camera_two)
       = Inr \<lparr>files = [(''/sdcard/DCIM/Camera/a.jpg'', ''a.jpg'', 2048),
                       (''/sdcard/DCIM/Camera/b.jpg'', ''b.jpg'', 1024)],
              directories = [(''/sdcard/DCIM/Camera'', ''Camera'')]\<rparr>
   \<and> (\<forall>p. mkdirSync one_bad_env p = None)
   \<and> progress_counters (snd (transferLocalFolderToAndroid one_bad_env ''emulator-5554''
        ''/home/u/root'' ''/sdcard/root'' (Inr local_sub_two))) = [1, 2]
   \<and> progress_counters (snd (transferAndroidFolderToLocal one_bad_env ''emulator-5554''
        ''/sdcard/DCIM'' ''/home/u/DCIM'' (Inr remote_camera_two))) = [1, 2]"
proof -
  have a: "countFilesAt (Inr local_sub_two) = Inr 2"
    by (simp add: countFilesAt_def local_sub_two_def)
  have b: "\<forall>p. \<exists>r. invoke_create_directory one_bad_env ''emulator-5554'' p = Resolved r"
    by (simp add: one_bad_env_def app_env_def create_directory_handler_def one_bad_client_def)
  have c: "\<forall>p. mkdirSync one_bad_env p = None"
    by (simp add: one_bad_env_def app_env_def)
  show ?thesis
    using progress_numbers_attempted_copies [of one_bad_env "''emulator-5554''" "''/home/u/root''"
        "''/sdcard/root''" "Inr local_sub_two" one_bad_env "''emulator-5554''" "''/sdcard/DCIM''"
        "''/home/u/DCIM''" "Inr remote_camera_two" 2
        "\<lparr>files = [(''/sdcard/DCIM/Camera/a.jpg'', ''a.jpg'', 2048),
                       (''/sdcard/DCIM/Camera/b.jpg'', ''b.jpg'', 1024)],
              directories = [(''/sdcard/DCIM/Camera'', ''Camera'')]\<rparr>"]
      a b c camera_scan
    by (simp add: upt_rec)
qed

text \<open>
  C7 as stated fails: the remote folder has two files, the creation of its local
  subdirectory throws, and the transfer ends without any per-file status.
\<close>

theorem no_progress_after_failed_mkdir:
  "listAndroidFilesRecursively ''/sdcard/DCIM'' (Inr remote_camera_two)
       = Inr \<lparr>files = [(''/sdcard/DCIM/Camera/a.jpg'', ''a.jpg'', 2048),
                       (''/sdcard/DCIM/Camera/b.jpg'', ''b.jpg'', 1024)],
              directories = [(''/sdcard/DCIM/Camera'', ''Camera'')]\<rparr>
   \<and> transferAndroidFolderToLocal readonly_env ''emulator-5554'' ''/sdcard/DCIM'' ''/home/u/DCIM''
        (Inr remote_camera_two)
       = (\<lparr>fr_success = 0, fr_errors = 1\<rparr>,
          [MkdirSync ''/home/u/DCIM'', SetStatus ScanningAndroid, SetStatus (PreparingFromAndroid 2),
           MkdirSync ''/home/u/DCIM/Camera'', SetStatus (StatusError ''EACCES: permission denied'')])
   \<and> progress_counters (snd (transferAndroidFolderToLocal readonly_env ''emulator-5554''
        ''/sdcard/DCIM'' ''/home/u/DCIM'' (Inr remote_camera_two))) = []"
  by (simp add: camera_scan transferAndroidFolderToLocal_def scanAndPull_def readonly_env_def
      app_env_def simple_join_def simple_basename_def Let_def progress_counters_def)

subsection \<open>Order of directory creations and file copies\<close>

lemma parentPath_child: "CHR ''/'' \<notin> set name \<Longrightarrow> parentPath (dir @ CHR ''/'' # name) = dir"
proof -
  assume a: "CHR ''/'' \<notin> set name"
  then have "\<forall>c\<in>set (rev name). c \<noteq> CHR ''/''" by auto
  then have "dropWhile (\<lambda>c. c \<noteq> CHR ''/'') (rev name @ CHR ''/'' # rev dir) = CHR ''/'' # rev dir"
    by (simp add: dropWhile_append3)
  then show ?thesis by (simp add: parentPath_def)
qed

lemma length_parentPath: "length (parentPath p) \<le> length p"
proof -
  have "length (dropWhile (\<lambda>c. c \<noteq> CHR ''/'') (rev p)) \<le> length (rev p)"
    by (rule length_dropWhile_le)
  then show ?thesis by (simp add: parentPath_def)
qed

lemma length_parentPath_pow: "length ((parentPath ^^ m) p) \<le> length p"
proof (induction m)
  case 0
  show ?case by simp
next
  case (Suc m)
  have "length (parentPath ((parentPath ^^ m) p)) \<le> length ((parentPath ^^ m) p)"
    by (rule length_parentPath)
  with Suc show ?case by simp
qed

lemma inside_split: "inside dir p \<Longrightarrow> \<exists>rest. p = dir @ ''/'' @ rest"
proof -
  assume "inside dir p"
  then have "take (Suc (length dir)) p = dir @ ''/''" by (simp add: inside_def)
  then have "p = (dir @ ''/'') @ drop (Suc (length dir)) p"
    by (metis append_take_drop_id)
  then show ?thesis by auto
qed

lemma inside_is_ancestor_aux:
  "length rest = n \<Longrightarrow> \<exists>k. (parentPath ^^ Suc k) (dir @ ''/'' @ rest) = dir"
proof (induction n arbitrary: rest rule: less_induct)
  case (less n)
  show ?case
  proof (cases "CHR ''/'' \<in> set rest")
    case False
    then have "(parentPath ^^ Suc 0) (dir @ ''/'' @ rest) = dir"
      by (simp add: parentPath_child)
    then show ?thesis by blast
  next
    case True
    then obtain r1 r2 where r: "rest = r1 @ CHR ''/'' # r2" "CHR ''/'' \<notin> set r2"
      by (meson split_list_last)
    have "dir @ ''/'' @ rest = (dir @ ''/'' @ r1) @ CHR ''/'' # r2" using r by simp
    then have p: "parentPath (dir @ ''/'' @ rest) = dir @ ''/'' @ r1"
      using parentPath_child [OF r(2), of "dir @ ''/'' @ r1"] by simp
    have "length r1 < n" using r less.prems by simp
    from less.IH [OF this refl] obtain k where "(parentPath ^^ Suc k) (dir @ ''/'' @ r1) = dir"
      by blast
    then have "(parentPath ^^ Suc (Suc k)) (dir @ ''/'' @ rest) = dir"
      using p by (simp add: funpow_swap1)
    then show ?thesis by blast
  qed
qed

lemma inside_is_ancestor: "inside dir p \<Longrightarrow> \<exists>k. (parentPath ^^ Suc k) p = dir"
  using inside_split [of dir p] inside_is_ancestor_aux [OF refl, of dir] by auto

lemma parent_closed_mono:
  "parent_closed ds ops \<Longrightarrow> set ds \<subseteq> set ds' \<Longrightarrow> parent_closed ds' ops"
proof (induction ds ops arbitrary: ds' rule: parent_closed.induct)
  case (1 ds)
  show ?case by simp
next
  case (2 ds p ops)
  from "2.prems" have "parent_closed (p # ds) ops" "set (p # ds) \<subseteq> set (p # ds')" by auto
  from "2.IH" [OF this] "2.prems" show ?case by auto
next
  case (3 ds p ops)
  from "3.prems" have "parent_closed ds ops" by simp
  from "3.IH" [OF this "3.prems"(2)] "3.prems" show ?case by auto
qed

lemma parent_closed_append:
  "parent_closed ds (xs @ ys) = (parent_closed ds xs \<and> parent_closed (rev (created xs) @ ds) ys)"
  by (induction ds xs rule: parent_closed.induct) simp_all

lemma parent_closed_append_mono:
  "parent_closed ds xs \<Longrightarrow> parent_closed ds ys \<Longrightarrow> parent_closed ds (xs @ ys)"
  using parent_closed_mono [of ds ys "rev (created xs) @ ds"] by (simp add: parent_closed_append)

lemma parent_step:
  "parent_closed ds ops \<Longrightarrow> j < length ops \<Longrightarrow>
     parentPath (op_path (ops ! j)) \<in> set ds \<or> (\<exists>i<j. ops ! i = Create (parentPath (op_path (ops ! j))))"
proof (induction ds ops arbitrary: j rule: parent_closed.induct)
  case (1 ds)
  then show ?case by simp
next
  case (2 ds p ops)
  show ?case
  proof (cases j)
    case 0
    with "2.prems" show ?thesis by simp
  next
    case (Suc j')
    with "2.prems" have "parent_closed (p # ds) ops" "j' < length ops" by simp_all
    from "2.IH" [OF this]
    have "parentPath (op_path (ops ! j')) \<in> set (p # ds)
          \<or> (\<exists>i<j'. ops ! i = Create (parentPath (op_path (ops ! j'))))" .
    then show ?thesis
    proof (elim disjE exE conjE)
      assume "parentPath (op_path (ops ! j')) \<in> set (p # ds)"
      then show ?thesis using Suc by (cases "parentPath (op_path (ops ! j')) = p") auto
    next
      fix i assume "i < j'" "ops ! i = Create (parentPath (op_path (ops ! j')))"
      then have "Suc i < j \<and> (Create p # ops) ! Suc i = Create (parentPath (op_path ((Create p # ops) ! j)))"
        using Suc by simp
      then show ?thesis by blast
    qed
  qed
next
  case (3 ds p ops)
  show ?case
  proof (cases j)
    case 0
    with "3.prems" show ?thesis by simp
  next
    case (Suc j')
    with "3.prems" have "parent_closed ds ops" "j' < length ops" by simp_all
    from "3.IH" [OF this]
    have "parentPath (op_path (ops ! j')) \<in> set ds
          \<or> (\<exists>i<j'. ops ! i = Create (parentPath (op_path (ops ! j'))))" .
    then show ?thesis
    proof (elim disjE exE conjE)
      assume "parentPath (op_path (ops ! j')) \<in> set ds"
      then show ?thesis using Suc by simp
    next
      fix i assume "i < j'" "ops ! i = Create (parentPath (op_path (ops ! j')))"
      then have "Suc i < j \<and> (Put p # ops) ! Suc i = Create (parentPath (op_path ((Put p # ops) ! j)))"
        using Suc by simp
      then show ?thesis by blast
    qed
  qed
qed

lemma ancestor_step:
  assumes pc: "parent_closed ds ops"
  shows "j < length ops \<Longrightarrow>
     (\<exists>i<j. ops ! i = Create ((parentPath ^^ Suc k) (op_path (ops ! j))))
     \<or> (\<exists>b\<in>set ds. \<exists>m. (parentPath ^^ Suc k) (op_path (ops ! j)) = (parentPath ^^ m) b)"
proof (induction k)
  case 0
  from parent_step [OF pc 0] show ?case
  proof
    assume "parentPath (op_path (ops ! j)) \<in> set ds"
    then have "\<exists>b\<in>set ds. \<exists>m. (parentPath ^^ Suc 0) (op_path (ops ! j)) = (parentPath ^^ m) b"
      by (intro bexI [of _ "parentPath (op_path (ops ! j))"] exI [of _ 0]) simp_all
    then show ?thesis by blast
  next
    assume "\<exists>i<j. ops ! i = Create (parentPath (op_path (ops ! j)))"
    then show ?thesis by simp
  qed
next
  case (Suc k)
  let ?q = "(parentPath ^^ Suc k) (op_path (ops ! j))"
  from Suc.IH [OF Suc.prems] show ?case
  proof (elim disjE exE conjE bexE)
    fix i assume i: "i < j" "ops ! i = Create ?q"
    then have "i < length ops" using Suc.prems by simp
    from parent_step [OF pc this] i
    have "parentPath ?q \<in> set ds \<or> (\<exists>i'<i. ops ! i' = Create (parentPath ?q))" by simp
    then show ?thesis
    proof
      assume "parentPath ?q \<in> set ds"
      then have "\<exists>b\<in>set ds. \<exists>m. (parentPath ^^ Suc (Suc k)) (op_path (ops ! j)) = (parentPath ^^ m) b"
        by (intro bexI [of _ "parentPath ?q"] exI [of _ 0]) simp_all
      then show ?thesis by blast
    next
      assume "\<exists>i'<i. ops ! i' = Create (parentPath ?q)"
      then obtain i' where "i' < i" "ops ! i' = Create (parentPath ?q)" by blast
      with i(1) have "i' < j \<and> ops ! i' = Create ((parentPath ^^ Suc (Suc k)) (op_path (ops ! j)))"
        by simp
      then show ?thesis by blast
    qed
  next
    fix b m assume b: "b \<in> set ds" "?q = (parentPath ^^ m) b"
    then have "(parentPath ^^ Suc (Suc k)) (op_path (ops ! j)) = (parentPath ^^ Suc m) b"
      by simp
    with b(1) show ?thesis by blast
  qed
qed

lemma android_ops_append [simp]: "android_ops (xs @ ys) = android_ops xs @ android_ops ys"
  by (simp add: android_ops_def)

lemma android_ops_pushOne:
  "android_ops (trace (pushOne e d T l r name s)) = android_ops (trace s) @ [Put r]"
  by (simp add: pushOne_def Let_def emit_def android_ops_def split: promise.splits)

lemma android_ops_create:
  "android_ops (trace (emit (CreateDirectory p) s)) = android_ops (trace s) @ [Create p]"
  by (simp add: emit_def android_ops_def)

lemma below_Put:
  "CHR ''/'' \<notin> set name \<Longrightarrow> below dir ds new \<Longrightarrow> below dir ds (Put (dir @ CHR ''/'' # name) # new)"
  by (simp add: below_def parentPath_child)

lemma below_Create:
  assumes "CHR ''/'' \<notin> set name" "below dir ds new"
  shows "below dir ds (Create (dir @ CHR ''/'' # name) # new)"
proof -
  from assms(2) have "parent_closed (dir # ds) new" by (simp add: below_def)
  then have "parent_closed ((dir @ CHR ''/'' # name) # dir # ds) new"
    by (rule parent_closed_mono) auto
  with assms show ?thesis by (simp add: below_def parentPath_child)
qed

lemma below_nested:
  assumes "below sub (dir # ds) new1" "below dir ds new2" "length dir < length sub"
  shows "below dir (sub # ds) (new1 @ new2)"
proof -
  from assms(1) have a: "parent_closed (sub # dir # ds) new1"
    and la: "list_all (\<lambda>x. length sub < length (op_path x)) new1" by (simp_all add: below_def)
  from assms(2) have b: "parent_closed (dir # ds) new2"
    and lb: "list_all (\<lambda>x. length dir < length (op_path x)) new2" by (simp_all add: below_def)
  from a have a': "parent_closed (dir # sub # ds) new1" by (rule parent_closed_mono) auto
  from b have b': "parent_closed (dir # sub # ds) new2" by (rule parent_closed_mono) auto
  from la assms(3) have "list_all (\<lambda>x. length dir < length (op_path x)) new1"
    by (auto simp: list_all_iff)
  with lb parent_closed_append_mono [OF a' b'] show ?thesis by (simp add: below_def)
qed

lemma below_Create_nested:
  assumes n: "CHR ''/'' \<notin> set name"
    and s: "below (dir @ CHR ''/'' # name) (dir # ds) new1"
    and r: "below dir ds new2"
  shows "below dir ds (Create (dir @ CHR ''/'' # name) # new1 @ new2)"
proof -
  have "below dir ((dir @ CHR ''/'' # name) # ds) (new1 @ new2)"
    by (rule below_nested [OF s r]) simp
  then have "parent_closed (dir # (dir @ CHR ''/'' # name) # ds) (new1 @ new2)"
    and l: "list_all (\<lambda>x. length dir < length (op_path x)) (new1 @ new2)"
    by (simp_all add: below_def)
  then have "parent_closed ((dir @ CHR ''/'' # name) # dir # ds) (new1 @ new2)"
    by - (erule parent_closed_mono, auto)
  with n l show ?thesis by (simp add: below_def parentPath_child)
qed

lemma processDirectory_ops:
  "lnames_ok items \<Longrightarrow>
     \<exists>new. android_ops (trace (processDirectory e d T ld ad items s)) = android_ops (trace s) @ new
       \<and> below ad ds new"
proof (induction e d T ld ad items s arbitrary: ds rule: processDirectory.induct)
  case (1 e d T ld ad s)
  show ?case by (simp add: below_def)
next
  case (2 e d T ld ad name items s)
  from "2.prems" have n: "CHR ''/'' \<notin> set name" and ok: "lnames_ok items" by simp_all
  let ?s1 = "pushOne e d T (path_join e ld name) (ad @ ''/'' @ name) name s"
  from "2.IH" [OF refl refl ok, of ds] obtain new where
    new: "android_ops (trace (processDirectory e d T ld ad items ?s1)) = android_ops (trace ?s1) @ new"
      "below ad ds new" by blast
  have "android_ops (trace (processDirectory e d T ld ad (LFile name # items) s))
          = android_ops (trace s) @ Put (ad @ CHR ''/'' # name) # new"
    using new(1) by (simp add: Let_def android_ops_pushOne)
  with below_Put [OF n new(2)] show ?case by blast
next
  case (3 e d T ld ad name sub items s)
  from "3.prems" have n: "CHR ''/'' \<notin> set name" and oks: "lnames_ok sub" and ok: "lnames_ok items"
    by simp_all
  let ?p = "ad @ ''/'' @ name"
  let ?s1 = "emit (CreateDirectory ?p) s"
  show ?case
  proof (cases "invoke_create_directory e d ?p")
    case (Rejected m)
    let ?s2 = "?s1\<lparr>errorCount := errorCount ?s1 + 1\<rparr>"
    from "3.IH"(2) [OF refl refl refl refl ok, of ds] Rejected obtain new where
      new: "android_ops (trace (processDirectory e d T ld ad items ?s2)) = android_ops (trace ?s2) @ new"
        "below ad ds new" by auto
    have "android_ops (trace (processDirectory e d T ld ad (LDir name sub # items) s))
          = android_ops (trace s) @ Create (ad @ CHR ''/'' # name) # new"
      using new(1) Rejected by (simp add: Let_def android_ops_create)
    with below_Create [OF n new(2)] show ?thesis by blast
  next
    case (Resolved r)
    let ?s' = "processDirectory e d T (path_join e ld name) ?p sub ?s1"
    let ?s2 = "?s'\<lparr>successCount := successCount ?s' + successCount ?s',
                     errorCount := errorCount ?s' + errorCount ?s'\<rparr>"
    from "3.IH"(1) [OF refl refl refl Resolved oks, of "ad # ds"] obtain new1 where
      new1: "android_ops (trace ?s') = android_ops (trace ?s1) @ new1"
        "below (ad @ CHR ''/'' # name) (ad # ds) new1" by auto
    from "3.IH"(2) [OF refl refl refl refl ok, of ds] Resolved obtain new2 where
      new2: "android_ops (trace (processDirectory e d T ld ad items ?s2)) = android_ops (trace ?s2) @ new2"
        "below ad ds new2" by (auto simp: Let_def)
    have "android_ops (trace (processDirectory e d T ld ad (LDir name sub # items) s))
          = android_ops (trace s) @ Create (ad @ CHR ''/'' # name) # new1 @ new2"
      using new1(1) new2(1) Resolved by (simp add: Let_def android_ops_create)
    with below_Create_nested [OF n new1(2) new2(2)] show ?thesis by blast
  qed
next
  case (4 e d T ld ad name m items s)
  from "4.prems" have n: "CHR ''/'' \<notin> set name" and ok: "lnames_ok items" by simp_all
  let ?s1 = "emit (CreateDirectory (ad @ ''/'' @ name)) s"
  let ?s2 = "?s1\<lparr>errorCount := errorCount ?s1 + 1\<rparr>"
  from "4.IH" [OF refl refl refl ok, of ds] obtain new where
    new: "android_ops (trace (processDirectory e d T ld ad items ?s2)) = android_ops (trace ?s2) @ new"
      "below ad ds new" by auto
  have "android_ops (trace (processDirectory e d T ld ad (LDenied name m # items) s))
          = android_ops (trace s) @ Create (ad @ CHR ''/'' # name) # new"
    using new(1) by (simp add: Let_def android_ops_create)
  with below_Create [OF n new(2)] show ?case by blast
qed

text \<open>The operations of a whole transfer: nothing, or the base folder and then operations below it.\<close>

lemma local_folder_ops:
  assumes "lnames_ok items"
  shows "android_ops (snd (transferLocalFolderToAndroid e d lp ap (Inr items))) = []
         \<or> (\<exists>new. android_ops (snd (transferLocalFolderToAndroid e d lp ap (Inr items))) = Create ap # new
              \<and> below ap [] new)"
proof (cases "countFiles items 0")
  case (Inl m)
  then show ?thesis
    by (simp add: transferLocalFolderToAndroid_def count_failed_def android_ops_def)
next
  case (Inr n)
  show ?thesis
  proof (cases "invoke_create_directory e d ap")
    case (Rejected m)
    with Inr have "android_ops (snd (transferLocalFolderToAndroid e d lp ap (Inr items))) = Create ap # []"
      by (simp add: transferLocalFolderToAndroid_def Let_def android_ops_def)
    moreover have "below ap [] []" by (simp add: below_def)
    ultimately show ?thesis by blast
  next
    case (Resolved r)
    let ?s0 = "\<lparr>processedFiles = 0, successCount = 0, errorCount = 0,
               trace = [SetStatus (PreparingFiles n (path_basename e lp)), CreateDirectory ap]\<rparr>"
    from processDirectory_ops [OF assms, of e d n lp ap ?s0 "[]"] obtain new where
      new: "android_ops (trace (processDirectory e d n lp ap items ?s0)) = android_ops (trace ?s0) @ new"
        "below ap [] new" by blast
    have "android_ops (snd (transferLocalFolderToAndroid e d lp ap (Inr items))) = Create ap # new"
      using new(1) Inr Resolved by (simp add: transferLocalFolderToAndroid_def Let_def android_ops_def)
    with new(2) show ?thesis by blast
  qed
qed

lemma local_copy_after_parent:
  assumes ok: "lnames_ok items"
    and j: "j < length (android_ops (snd (transferLocalFolderToAndroid e d lp ap (Inr items))))"
    and p: "android_ops (snd (transferLocalFolderToAndroid e d lp ap (Inr items))) ! j = Put p"
  shows "\<exists>i<j. android_ops (snd (transferLocalFolderToAndroid e d lp ap (Inr items))) ! i
                  = Create (parentPath p)"
proof -
  let ?ops = "android_ops (snd (transferLocalFolderToAndroid e d lp ap (Inr items)))"
  from local_folder_ops [OF ok, of e d lp ap] j obtain new where
    new: "?ops = Create ap # new" "below ap [] new" by auto
  from new(2) have pc: "parent_closed [ap] new" by (simp add: below_def)
  from p new(1) obtain j' where j': "j = Suc j'" by (cases j) auto
  with j new(1) have jl: "j' < length new" by simp
  from p new(1) j' have pj: "new ! j' = Put p" by simp
  from parent_step [OF pc jl] pj
  have "parentPath p = ap \<or> (\<exists>i<j'. new ! i = Create (parentPath p))" by simp
  then show ?thesis
  proof
    assume "parentPath p = ap"
    with new(1) j' have "0 < j \<and> ?ops ! 0 = Create (parentPath p)" by simp
    then show ?thesis by blast
  next
    assume "\<exists>i<j'. new ! i = Create (parentPath p)"
    then obtain i where "i < j'" "new ! i = Create (parentPath p)" by blast
    then have "Suc i < j \<and> ?ops ! Suc i = Create (parentPath p)" using new(1) j' by simp
    then show ?thesis by blast
  qed
qed

lemma itemPath_of_listed: "itemPath_of p name = listed_dir p @ CHR ''/'' # name"
proof (cases "endsWith_slash p")
  case True
  then have "p = butlast p @ [CHR ''/'']"
    by (metis append_butlast_last_id endsWith_slash_def)
  then have "p @ name = butlast p @ CHR ''/'' # name"
    by (metis append.assoc append_Cons append_Nil)
  with True show ?thesis by (simp add: itemPath_of_def listed_dir_def)
next
  case False
  then show ?thesis by (simp add: itemPath_of_def listed_dir_def)
qed

lemma listed_dir_child:
  "name \<noteq> [] \<Longrightarrow> CHR ''/'' \<notin> set name \<Longrightarrow> listed_dir (b @ CHR ''/'' # name) = b @ CHR ''/'' # name"
proof -
  assume a: "name \<noteq> []" "CHR ''/'' \<notin> set name"
  then have "last (b @ CHR ''/'' # name) = last name" by simp
  moreover from a have "last name \<noteq> CHR ''/''" using last_in_set by metis
  ultimately show ?thesis by (simp add: listed_dir_def endsWith_slash_def)
qed

lemma scanned_empty: "scanned b ds [] []"
  by (simp add: scanned_def)

lemma scanned_file:
  "CHR ''/'' \<notin> set name \<Longrightarrow> scanned b ds dn fn \<Longrightarrow> scanned b ds dn ((b @ CHR ''/'' # name, name, sz) # fn)"
  by (simp add: scanned_def parentPath_child)

lemma created_dirs: "created (map (Create \<circ> fst) dn) = map fst dn"
  by (induction dn) simp_all

lemma scanned_dir:
  assumes n: "CHR ''/'' \<notin> set name"
    and s: "scanned (b @ CHR ''/'' # name) (b # ds) dn1 fn1"
    and r: "scanned b ds dn2 fn2"
  shows "scanned b ds ((b @ CHR ''/'' # name, name) # dn1 @ dn2) (fn1 @ fn2)"
proof -
  let ?q = "b @ CHR ''/'' # name"
  from s have s1: "parent_closed (?q # b # ds) (map (Create \<circ> fst) dn1)"
    and s2: "list_all (\<lambda>x. length ?q < length (fst x)) dn1"
    and s3: "list_all (\<lambda>f. parentPath (fst f) \<in> set (?q # map fst dn1) \<and> length ?q < length (fst f)) fn1"
    by (simp_all add: scanned_def)
  from r have r1: "parent_closed (b # ds) (map (Create \<circ> fst) dn2)"
    and r2: "list_all (\<lambda>x. length b < length (fst x)) dn2"
    and r3: "list_all (\<lambda>f. parentPath (fst f) \<in> set (b # map fst dn2) \<and> length b < length (fst f)) fn2"
    by (simp_all add: scanned_def)
  from r1 have r1': "parent_closed (?q # b # ds) (map (Create \<circ> fst) dn2)"
    by (rule parent_closed_mono) auto
  have dirs: "parent_closed (b # ds) (map (Create \<circ> fst) ((?q, name) # dn1 @ dn2))"
    using parent_closed_append_mono [OF s1 r1'] n by (simp add: parentPath_child)
  have lens: "list_all (\<lambda>x. length b < length (fst x)) ((?q, name) # dn1 @ dn2)"
    using s2 r2 by (auto simp: list_all_iff)
  have f1: "list_all (\<lambda>f. parentPath (fst f) \<in> set (b # map fst ((?q, name) # dn1 @ dn2))
                 \<and> length b < length (fst f)) fn1"
    using s3 by (auto simp: list_all_iff)
  have f2: "list_all (\<lambda>f. parentPath (fst f) \<in> set (b # map fst ((?q, name) # dn1 @ dn2))
                 \<and> length b < length (fst f)) fn2"
    using r3 by (auto simp: list_all_iff)
  from dirs lens f1 f2 show ?thesis by (simp add: scanned_def)
qed

lemma scanItems_scanned:
  "rnames_ok items \<Longrightarrow> scanItems p items acc = Inr res \<Longrightarrow>
     \<exists>dn fn. directories res = directories acc @ dn \<and> files res = files acc @ fn
        \<and> scanned (listed_dir p) ds dn fn"
proof (induction p items acc arbitrary: res ds rule: scanItems.induct)
  case (1 p results)
  then show ?case using scanned_empty by simp
next
  case (2 p name mode sz sub items results)
  from "2.prems"(1) have n: "name \<noteq> []" "CHR ''/'' \<notin> set name"
    and oks: "rnames_ok sub" and ok: "rnames_ok items" by simp_all
  let ?b = "listed_dir p"
  let ?q = "?b @ CHR ''/'' # name"
  have q: "itemPath_of p name = ?q" by (rule itemPath_of_listed)
  show ?case
  proof (cases "isDir mode")
    case True
    with "2.prems"(2) obtain subResults where
      sub: "scanItems (itemPath_of p name) sub no_results = Inr subResults"
      and rest: "scanItems p items
               (results\<lparr>directories := directories results @ [(itemPath_of p name, name)] @ directories subResults,
                        files := files results @ files subResults\<rparr>) = Inr res"
      by (auto simp: Let_def split: sum.splits)
    from "2.IH"(1) [OF refl True oks sub, of "?b # ds"] obtain dn1 fn1 where
      one: "directories subResults = dn1" "files subResults = fn1" "scanned ?q (?b # ds) dn1 fn1"
      by (auto simp: no_results_def q listed_dir_child [OF n])
    from "2.IH"(2) [OF refl True sub ok rest, of ds] obtain dn2 fn2 where
      two: "directories res = (directories results @ [(?q, name)] @ dn1) @ dn2"
        "files res = (files results @ fn1) @ fn2" "scanned ?b ds dn2 fn2"
      using one(1,2) by (auto simp: q)
    from scanned_dir [OF n(2) one(3) two(3)] two(1,2) show ?thesis by simp
  next
    case False
    with "2.prems"(2) have rest:
      "scanItems p items (results\<lparr>files := files results @ [(itemPath_of p name, name, sz)]\<rparr>) = Inr res"
      by (simp add: Let_def)
    from "2.IH"(3) [OF refl False ok rest, of ds] obtain dn2 fn2 where
      two: "directories res = directories results @ dn2"
        "files res = (files results @ [(?q, name, sz)]) @ fn2" "scanned ?b ds dn2 fn2"
      by (auto simp: q)
    from scanned_file [OF n(2) two(3)] two(1,2) show ?thesis by simp
  qed
next
  case (3 p name mode sz m items results)
  from "3.prems"(1) have n: "name \<noteq> []" "CHR ''/'' \<notin> set name" and ok: "rnames_ok items" by simp_all
  let ?b = "listed_dir p"
  let ?q = "?b @ CHR ''/'' # name"
  have q: "itemPath_of p name = ?q" by (rule itemPath_of_listed)
  show ?case
  proof (cases "isDir mode")
    case True
    with "3.prems"(2) show ?thesis by (simp add: Let_def)
  next
    case False
    with "3.prems"(2) have rest:
      "scanItems p items (results\<lparr>files := files results @ [(itemPath_of p name, name, sz)]\<rparr>) = Inr res"
      by (simp add: Let_def)
    from "3.IH" [OF refl False ok rest, of ds] obtain dn2 fn2 where
      two: "directories res = directories results @ dn2"
        "files res = (files results @ [(?q, name, sz)]) @ fn2" "scanned ?b ds dn2 fn2"
      by (auto simp: q)
    from scanned_file [OF n(2) two(3)] two(1,2) show ?thesis by simp
  qed
qed

lemma parent_closed_puts:
  "list_all (\<lambda>f. parentPath (fst f) \<in> set ds) fn \<Longrightarrow> parent_closed ds (map (Put \<circ> fst) fn)"
  by (induction fn) simp_all

lemma plan_below:
  assumes "rnames_ok items" "listAndroidFilesRecursively p (Inr items) = Inr res"
  shows "below (listed_dir p) [] (plan_ops res)"
proof -
  from assms(2) have "scanItems p items no_results = Inr res"
    by (simp add: listAndroidFilesRecursively_def)
  from scanItems_scanned [OF assms(1) this, of "[]"]
  have s: "scanned (listed_dir p) [] (directories res) (files res)"
    by (auto simp: no_results_def)
  let ?b = "listed_dir p"
  from s have d: "parent_closed [?b] (map (Create \<circ> fst) (directories res))"
    and dl: "list_all (\<lambda>x. length ?b < length (fst x)) (directories res)"
    and f: "list_all (\<lambda>f. parentPath (fst f) \<in> set (?b # map fst (directories res))
               \<and> length ?b < length (fst f)) (files res)"
    by (simp_all add: scanned_def)
  from f have "list_all (\<lambda>f. parentPath (fst f) \<in> set (rev (map fst (directories res)) @ [?b])) (files res)"
    by (auto simp: list_all_iff)
  from parent_closed_puts [OF this] d
  have "parent_closed [?b] (plan_ops res)"
    by (simp add: plan_ops_def parent_closed_append created_dirs)
  moreover have "list_all (\<lambda>x. length ?b < length (op_path x)) (plan_ops res)"
    using dl f by (auto simp: plan_ops_def list_all_iff)
  ultimately show ?thesis by (simp add: below_def)
qed

lemma parentPath_shorter: "p \<noteq> [] \<Longrightarrow> length (parentPath p) < length p"
proof -
  assume "p \<noteq> []"
  then have ne: "rev p \<noteq> []" by simp
  have le: "length (dropWhile (\<lambda>c. c \<noteq> CHR ''/'') (rev p)) \<le> length (rev p)"
    by (rule length_dropWhile_le)
  show ?thesis
  proof (cases "dropWhile (\<lambda>c. c \<noteq> CHR ''/'') (rev p)")
    case Nil
    have "parentPath p = []" unfolding parentPath_def Nil by simp
    with \<open>p \<noteq> []\<close> show ?thesis by simp
  next
    case (Cons a as)
    with le have "length as < length p" by simp
    moreover have "parentPath p = rev as" unfolding parentPath_def Cons by simp
    ultimately show ?thesis by simp
  qed
qed

lemma parentPath_pow_same_length:
  "length ((parentPath ^^ m) b) = length b \<Longrightarrow> (parentPath ^^ m) b = b"
proof (induction m)
  case 0
  show ?case by simp
next
  case (Suc m)
  let ?x = "(parentPath ^^ m) b"
  have a: "length (parentPath ?x) \<le> length ?x" by (rule length_parentPath)
  have b: "length ?x \<le> length b" by (rule length_parentPath_pow)
  from Suc.prems have c: "length (parentPath ?x) = length b" by simp
  with a b have "length ?x = length b" by simp
  from Suc.IH [OF this] have x: "?x = b" .
  with c have "length (parentPath b) = length b" by simp
  then have "b = []" using parentPath_shorter [of b] by auto
  then have "parentPath b = b" by (simp add: parentPath_def)
  with x show ?case by simp
qed

lemma ancestor_created:
  assumes pc: "parent_closed [base] ops" and j: "j < length ops"
    and ins: "inside dir (op_path (ops ! j))"
  shows "(\<exists>i<j. ops ! i = Create dir) \<or> (\<exists>m. dir = (parentPath ^^ m) base)"
proof -
  from inside_is_ancestor [OF ins] obtain k where k: "(parentPath ^^ Suc k) (op_path (ops ! j)) = dir"
    by blast
  from ancestor_step [OF pc j, of k] k show ?thesis by auto
qed

lemma parents_first_strict:
  assumes pc: "parent_closed [base] ops" and j: "j < length ops"
    and ins: "inside dir (op_path (ops ! j))" and len: "length base < length dir"
  shows "\<exists>i<j. ops ! i = Create dir"
proof -
  from ancestor_created [OF pc j ins] show ?thesis
  proof
    assume "\<exists>m. dir = (parentPath ^^ m) base"
    then obtain m where "dir = (parentPath ^^ m) base" by blast
    then have "length dir \<le> length base" by (simp add: length_parentPath_pow)
    with len show ?thesis by simp
  qed
qed

lemma local_ancestors_first:
  assumes ok: "lnames_ok items"
    and j: "j < length (android_ops (snd (transferLocalFolderToAndroid e d lp ap (Inr items))))"
    and ins: "inside dir (op_path (android_ops (snd (transferLocalFolderToAndroid e d lp ap (Inr items))) ! j))"
    and len: "length ap \<le> length dir"
  shows "\<exists>i<j. android_ops (snd (transferLocalFolderToAndroid e d lp ap (Inr items))) ! i = Create dir"
proof -
  let ?ops = "android_ops (snd (transferLocalFolderToAndroid e d lp ap (Inr items)))"
  from local_folder_ops [OF ok, of e d lp ap] j obtain new where
    new: "?ops = Create ap # new" "below ap [] new" by auto
  from new(2) have pc: "parent_closed [ap] new" by (simp add: below_def)
  show ?thesis
  proof (cases j)
    case 0
    with ins new(1) have "inside dir ap" by simp
    then obtain rest where "ap = dir @ ''/'' @ rest" using inside_split by blast
    then have "length dir < length ap" by simp
    with len show ?thesis by simp
  next
    case (Suc j')
    from j new(1) Suc have j': "j' < length new" by simp
    from ins new(1) Suc have ins': "inside dir (op_path (new ! j'))" by simp
    from ancestor_created [OF pc j' ins'] show ?thesis
    proof
      assume "\<exists>i<j'. new ! i = Create dir"
      then obtain i where "i < j'" "new ! i = Create dir" by blast
      then have "Suc i < j \<and> ?ops ! Suc i = Create dir" using new(1) Suc by simp
      then show ?thesis by blast
    next
      assume "\<exists>m. dir = (parentPath ^^ m) ap"
      then obtain m where m: "dir = (parentPath ^^ m) ap" by blast
      then have "length dir \<le> length ap" by (simp add: length_parentPath_pow)
      with len m have "length ((parentPath ^^ m) ap) = length ap" by simp
      from parentPath_pow_same_length [OF this] m have "dir = ap" by simp
      with new(1) Suc have "0 < j \<and> ?ops ! 0 = Create dir" by simp
      then show ?thesis by blast
    qed
  qed
qed

lemma remote_ancestors_first:
  assumes "rnames_ok items" "listAndroidFilesRecursively p (Inr items) = Inr res"
    and "j < length (plan_ops res)" "inside dir (op_path (plan_ops res ! j))"
    and "length (listed_dir p) < length dir"
  shows "\<exists>i<j. plan_ops res ! i = Create dir"
proof -
  from plan_below [OF assms(1,2)] have "parent_closed [listed_dir p] (plan_ops res)"
    by (simp add: below_def)
  from parents_first_strict [OF this assms(3,4,5)] show ?thesis .
qed

lemma split_at_pulls_creations: "split_at_pulls evs \<Longrightarrow> creations_then_pulls evs"
proof -
  assume "split_at_pulls evs"
  then obtain mk pl where h: "filter touches_destination evs = mk @ pl" "list_all is_mkdir mk"
    "list_all is_pull pl" unfolding split_at_pulls_def by blast
  from h(2) have "dropWhile is_mkdir (mk @ pl) = dropWhile is_mkdir pl"
    by (simp add: list_all_iff)
  moreover have "set (dropWhile is_mkdir pl) \<subseteq> set pl" by (rule set_dropWhileD [THEN subsetI])
  ultimately show ?thesis using h(1,3) by (auto simp: creations_then_pulls_def list_all_iff)
qed

lemma split_at_pulls_I:
  "filter touches_destination evs = mk @ pl \<Longrightarrow> list_all is_mkdir mk \<Longrightarrow> list_all is_pull pl
   \<Longrightarrow> split_at_pulls evs"
  unfolding split_at_pulls_def by blast

lemma createDirectories_mkdirs:
  "createDirectories e ap lp dirs t = Inr t' \<Longrightarrow>
     \<exists>mk. filter touches_destination t' = filter touches_destination t @ mk \<and> list_all is_mkdir mk"
  "createDirectories e ap lp dirs t = Inl (m, t') \<Longrightarrow>
     \<exists>mk. filter touches_destination t' = filter touches_destination t @ mk \<and> list_all is_mkdir mk"
proof (induction e ap lp dirs t rule: createDirectories.induct)
  case (1 e ap lp t)
  { case 1 then show ?case by simp }
  { case 2 then show ?case by simp }
next
  case (2 e ap lp dpath dname dirs t)
  let ?target = "path_join e lp (drop (length ap) dpath)"
  { case 1
    show ?case
    proof (cases "existsSync e ?target")
      case True
      with 1 "2.IH"(3) show ?thesis by (simp add: Let_def)
    next
      case False
      with 1 have none: "mkdirSync e ?target = None"
        and rest: "createDirectories e ap lp dirs (t @ [MkdirSync ?target]) = Inr t'"
        by (auto simp: Let_def split: option.splits)
      from "2.IH"(1) [OF refl refl _ none rest] False obtain mk where
        "filter touches_destination t' = filter touches_destination (t @ [MkdirSync ?target]) @ mk"
        "list_all is_mkdir mk" by auto
      then have "filter touches_destination t' = filter touches_destination t @ (MkdirSync ?target # mk)
                 \<and> list_all is_mkdir (MkdirSync ?target # mk)" by simp
      then show ?thesis by blast
    qed }
  { case 2
    show ?case
    proof (cases "existsSync e ?target")
      case True
      with 2 "2.IH"(4) show ?thesis by (simp add: Let_def)
    next
      case False
      show ?thesis
      proof (cases "mkdirSync e ?target")
        case (Some m')
        with 2 False have "t' = t @ [MkdirSync ?target]" by (simp add: Let_def)
        then have "filter touches_destination t' = filter touches_destination t @ [MkdirSync ?target]
                   \<and> list_all is_mkdir [MkdirSync ?target]" by simp
        then show ?thesis by blast
      next
        case None
        with 2 False have rest: "createDirectories e ap lp dirs (t @ [MkdirSync ?target]) = Inl (m, t')"
          by (simp add: Let_def)
        from "2.IH"(2) [OF refl refl _ None rest] False obtain mk where
          "filter touches_destination t' = filter touches_destination (t @ [MkdirSync ?target]) @ mk"
          "list_all is_mkdir mk" by auto
        then have "filter touches_destination t' = filter touches_destination t @ (MkdirSync ?target # mk)
                 \<and> list_all is_mkdir (MkdirSync ?target # mk)" by simp
        then show ?thesis by blast
      qed
    qed }
qed

lemma pullOne_touch:
  "filter touches_destination (trace (pullOne e d T r l name s))
     = filter touches_destination (trace s) @ [PullFile r l]"
  by (simp add: pullOne_def Let_def emit_def split: promise.splits)

lemma pullFiles_pulls:
  "\<exists>pl. filter touches_destination (trace (pullFiles e d T ap lp fs s))
          = filter touches_destination (trace s) @ pl \<and> list_all is_pull pl"
proof (induction e d T ap lp fs s rule: pullFiles.induct)
  case (1 e d T ap lp s)
  show ?case by simp
next
  case (2 e d T ap lp fpath fname fsize fs s)
  let ?target = "path_join e lp (drop (length ap) fpath)"
  from "2.IH" [OF refl refl] obtain pl where
    "filter touches_destination (trace (pullFiles e d T ap lp fs (pullOne e d T fpath ?target fname s)))
       = filter touches_destination (trace (pullOne e d T fpath ?target fname s)) @ pl"
    "list_all is_pull pl" by blast
  then have "filter touches_destination (trace (pullFiles e d T ap lp ((fpath, fname, fsize) # fs) s))
       = filter touches_destination (trace s) @ (PullFile fpath ?target # pl)
       \<and> list_all is_pull (PullFile fpath ?target # pl)"
    by (simp add: Let_def pullOne_touch)
  then show ?case by blast
qed

lemma scanAndPull_split:
  assumes "list_all is_mkdir (filter touches_destination t0)"
  shows "split_at_pulls (snd (scanAndPull e d ap lp listing t0))"
proof (cases "listAndroidFilesRecursively ap listing")
  case (Inl m)
  then have "filter touches_destination (snd (scanAndPull e d ap lp listing t0))
               = filter touches_destination t0 @ []"
    by (simp add: scanAndPull_def Let_def)
  from this assms show ?thesis by (rule split_at_pulls_I) simp
next
  case (Inr fileList)
  let ?t2 = "(t0 @ [SetStatus ScanningAndroid]) @ [SetStatus (PreparingFromAndroid (length (files fileList)))]"
  have t2: "filter touches_destination ?t2 = filter touches_destination t0" by simp
  show ?thesis
  proof (cases "createDirectories e ap lp (directories fileList) ?t2")
    case (Inl x)
    obtain m t3 where x: "x = (m, t3)" by (cases x)
    from createDirectories_mkdirs(2) [OF Inl [unfolded x]] t2 obtain mk where
      mk: "filter touches_destination t3 = filter touches_destination t0 @ mk" "list_all is_mkdir mk"
      by auto
    have "filter touches_destination (snd (scanAndPull e d ap lp listing t0))
               = (filter touches_destination t0 @ mk) @ []"
      using Inl x mk(1) \<open>listAndroidFilesRecursively ap listing = Inr fileList\<close>
      by (simp add: scanAndPull_def Let_def)
    moreover have "list_all is_mkdir (filter touches_destination t0 @ mk)"
      using assms mk(2) by simp
    ultimately show ?thesis by (rule split_at_pulls_I) simp
  next
    case (Inr t3)
    from createDirectories_mkdirs(1) [OF Inr] t2 obtain mk where
      mk: "filter touches_destination t3 = filter touches_destination t0 @ mk" "list_all is_mkdir mk"
      by auto
    let ?s0 = "\<lparr>processedFiles = 0, successCount = 0, errorCount = 0, trace = t3\<rparr>"
    from pullFiles_pulls [of e d "length (files fileList)" ap lp "files fileList" ?s0] obtain pl where
      pl: "filter touches_destination (trace (pullFiles e d (length (files fileList)) ap lp (files fileList) ?s0))
            = filter touches_destination t3 @ pl" "list_all is_pull pl" by auto
    have "filter touches_destination (snd (scanAndPull e d ap lp listing t0))
               = (filter touches_destination t0 @ mk) @ pl"
      using Inr mk(1) pl(1) \<open>listAndroidFilesRecursively ap listing = Inr fileList\<close>
      by (simp add: scanAndPull_def Let_def)
    moreover have "list_all is_mkdir (filter touches_destination t0 @ mk)"
      using assms mk(2) by simp
    ultimately show ?thesis using pl(2) by (rule split_at_pulls_I)
  qed
qed

lemma android_folder_creations_first:
  "creations_then_pulls (snd (transferAndroidFolderToLocal e d ap lp listing))"
proof -
  have a: "list_all is_mkdir (filter touches_destination [])"
    "list_all is_mkdir (filter touches_destination [MkdirSync lp])" by simp_all
  have "split_at_pulls [MkdirSync lp, SetStatus (ErrorCreatingFolderLocally m)]" for m
    by (rule split_at_pulls_I [where mk = "[MkdirSync lp]" and pl = "[]"]) simp_all
  then have "split_at_pulls (snd (transferAndroidFolderToLocal e d ap lp listing))"
    using android_folder_cases [of e lp d ap listing]
      scanAndPull_split [OF a(1), of e d ap lp listing] scanAndPull_split [OF a(2), of e d ap lp listing]
    by auto
  then show ?thesis by (rule split_at_pulls_creations)
qed

lemma no_pulls_append [simp]: "no_pulls (xs @ ys) = (no_pulls xs \<and> no_pulls ys)"
  by (simp add: no_pulls_def)

lemma no_pulls_mkdirs: "list_all is_mkdir mk \<Longrightarrow> no_pulls mk"
proof -
  assume a: "list_all is_mkdir mk"
  have "is_mkdir x \<Longrightarrow> \<not> is_pull x" for x by (cases x) simp_all
  with a show ?thesis by (auto simp: no_pulls_def list_all_iff)
qed

lemma createDirectories_trace:
  "createDirectories e ap lp dirs t = Inr t' \<Longrightarrow>
     (\<exists>mk. t' = t @ mk \<and> list_all is_mkdir mk)
     \<and> (\<forall>x\<in>set dirs. existsSync e (local_target e ap lp (fst x))
                      \<or> MkdirSync (local_target e ap lp (fst x)) \<in> set t')"
proof (induction e ap lp dirs t arbitrary: t' rule: createDirectories.induct)
  case (1 e ap lp t)
  then show ?case by simp
next
  case (2 e ap lp dpath dname dirs t)
  let ?target = "path_join e lp (drop (length ap) dpath)"
  have tg: "local_target e ap lp dpath = ?target" by (simp add: local_target_def)
  show ?case
  proof (cases "existsSync e ?target")
    case True
    with "2.prems" have rest: "createDirectories e ap lp dirs t = Inr t'" by (simp add: Let_def)
    from "2.IH"(2) [OF refl refl _ rest] True show ?thesis by (simp add: tg)
  next
    case False
    with "2.prems" have none: "mkdirSync e ?target = None"
      and rest: "createDirectories e ap lp dirs (t @ [MkdirSync ?target]) = Inr t'"
      by (auto simp: Let_def split: option.splits)
    from "2.IH"(1) [OF refl refl _ none rest] False obtain mk where
      mk: "t' = (t @ [MkdirSync ?target]) @ mk" "list_all is_mkdir mk"
      and ds: "\<forall>x\<in>set dirs. existsSync e (local_target e ap lp (fst x))
                      \<or> MkdirSync (local_target e ap lp (fst x)) \<in> set t'"
      by auto
    from mk have "t' = t @ (MkdirSync ?target # mk) \<and> list_all is_mkdir (MkdirSync ?target # mk)"
      by simp
    then have a: "\<exists>mk. t' = t @ mk \<and> list_all is_mkdir mk" by blast
    from mk(1) have "MkdirSync ?target \<in> set t'" by simp
    with ds a show ?thesis by (simp add: tg)
  qed
qed

lemma createDirectories_failed_trace:
  "createDirectories e ap lp dirs t = Inl (m, t') \<Longrightarrow> \<exists>mk. t' = t @ mk \<and> list_all is_mkdir mk"
proof (induction e ap lp dirs t arbitrary: t' rule: createDirectories.induct)
  case (1 e ap lp t)
  then show ?case by simp
next
  case (2 e ap lp dpath dname dirs t)
  let ?target = "path_join e lp (drop (length ap) dpath)"
  show ?case
  proof (cases "existsSync e ?target")
    case True
    with "2.prems" have rest: "createDirectories e ap lp dirs t = Inl (m, t')" by (simp add: Let_def)
    from "2.IH"(2) [OF refl refl _ rest] True show ?thesis by simp
  next
    case False
    show ?thesis
    proof (cases "mkdirSync e ?target")
      case (Some m')
      with "2.prems" False have "t' = t @ [MkdirSync ?target]" by (simp add: Let_def)
      then have "t' = t @ [MkdirSync ?target] \<and> list_all is_mkdir [MkdirSync ?target]" by simp
      then show ?thesis by blast
    next
      case None
      with "2.prems" False have rest: "createDirectories e ap lp dirs (t @ [MkdirSync ?target]) = Inl (m, t')"
        by (simp add: Let_def)
      from "2.IH"(1) [OF refl refl _ None rest] False obtain mk where
        "t' = (t @ [MkdirSync ?target]) @ mk" "list_all is_mkdir mk" by auto
      then have "t' = t @ (MkdirSync ?target # mk) \<and> list_all is_mkdir (MkdirSync ?target # mk)"
        by simp
      then show ?thesis by blast
    qed
  qed
qed

lemma pullOne_trace:
  "\<exists>st. trace (pullOne e d T r l name s) = trace s @ [PullFile r l, SetStatus st]"
  by (cases "invoke_pull_file e d r l") (simp_all add: pullOne_def Let_def emit_def)

lemma pullFiles_trace:
  "\<exists>new. trace (pullFiles e d T ap lp fs s) = trace s @ new
     \<and> (\<forall>x\<in>set new. is_pull x \<longrightarrow> (\<exists>f\<in>set fs. x = PullFile (fst f) (local_target e ap lp (fst f))))"
proof (induction e d T ap lp fs s rule: pullFiles.induct)
  case (1 e d T ap lp s)
  show ?case by simp
next
  case (2 e d T ap lp fpath fname fsize fs s)
  let ?target = "path_join e lp (drop (length ap) fpath)"
  let ?s1 = "pullOne e d T fpath ?target fname s"
  from pullOne_trace [of e d T fpath ?target fname s] obtain st where
    one: "trace ?s1 = trace s @ [PullFile fpath ?target, SetStatus st]" by blast
  from "2.IH" [OF refl refl] obtain new where
    new: "trace (pullFiles e d T ap lp fs ?s1) = trace ?s1 @ new"
      "\<forall>x\<in>set new. is_pull x \<longrightarrow> (\<exists>f\<in>set fs. x = PullFile (fst f) (local_target e ap lp (fst f)))"
    by blast
  let ?new = "[PullFile fpath ?target, SetStatus st] @ new"
  have "trace (pullFiles e d T ap lp ((fpath, fname, fsize) # fs) s) = trace s @ ?new"
    using one new(1) by (simp add: Let_def)
  moreover have "\<forall>x\<in>set ?new. is_pull x \<longrightarrow>
       (\<exists>f\<in>set ((fpath, fname, fsize) # fs). x = PullFile (fst f) (local_target e ap lp (fst f)))"
    using new(2) by (auto simp: local_target_def)
  ultimately show ?case by blast
qed

lemma scanAndPull_stages:
  assumes t0: "no_pulls t0"
  shows "no_pulls (snd (scanAndPull e d ap lp listing t0))
     \<or> (\<exists>fileList t3 new. listAndroidFilesRecursively ap listing = Inr fileList
           \<and> snd (scanAndPull e d ap lp listing t0) = t3 @ new \<and> set t0 \<subseteq> set t3
           \<and> staged e ap lp fileList t3 new)"
proof (cases "listAndroidFilesRecursively ap listing")
  case (Inl m)
  with t0 have "no_pulls (snd (scanAndPull e d ap lp listing t0))"
    by (simp add: scanAndPull_def Let_def no_pulls_def)
  then show ?thesis by blast
next
  case (Inr fileList)
  let ?t2 = "(t0 @ [SetStatus ScanningAndroid]) @ [SetStatus (PreparingFromAndroid (length (files fileList)))]"
  have t2: "no_pulls ?t2" using t0 by (simp add: no_pulls_def)
  show ?thesis
  proof (cases "createDirectories e ap lp (directories fileList) ?t2")
    case (Inl x)
    obtain m t3 where x: "x = (m, t3)" by (cases x)
    from createDirectories_failed_trace [OF Inl [unfolded x]] obtain mk where
      mk: "t3 = ?t2 @ mk" "list_all is_mkdir mk" by blast
    have "no_pulls t3"
      using t2 no_pulls_mkdirs [OF mk(2)] unfolding mk(1) by (auto simp: no_pulls_def)
    then have "no_pulls (snd (scanAndPull e d ap lp listing t0))"
      using Inl x \<open>listAndroidFilesRecursively ap listing = Inr fileList\<close>
      by (simp add: scanAndPull_def Let_def no_pulls_def)
    then show ?thesis by blast
  next
    case (Inr t3)
    from createDirectories_trace [OF Inr] obtain mk where
      mk: "t3 = ?t2 @ mk" "list_all is_mkdir mk"
      and ds: "\<forall>x\<in>set (directories fileList). existsSync e (local_target e ap lp (fst x))
                      \<or> MkdirSync (local_target e ap lp (fst x)) \<in> set t3"
      by blast
    have np: "no_pulls t3"
      using t2 no_pulls_mkdirs [OF mk(2)] unfolding mk(1) by (auto simp: no_pulls_def)
    from mk(1) have sub: "set t0 \<subseteq> set t3" by auto
    let ?s0 = "\<lparr>processedFiles = 0, successCount = 0, errorCount = 0, trace = t3\<rparr>"
    from pullFiles_trace [of e d "length (files fileList)" ap lp "files fileList" ?s0] obtain new where
      new: "trace (pullFiles e d (length (files fileList)) ap lp (files fileList) ?s0) = t3 @ new"
        "\<forall>x\<in>set new. is_pull x \<longrightarrow>
              (\<exists>f\<in>set (files fileList). x = PullFile (fst f) (local_target e ap lp (fst f)))"
      by auto
    have "snd (scanAndPull e d ap lp listing t0) = t3 @ new"
      using Inr new(1) \<open>listAndroidFilesRecursively ap listing = Inr fileList\<close>
      by (simp add: scanAndPull_def Let_def)
    moreover have "staged e ap lp fileList t3 new" using np ds new(2) by (simp add: staged_def)
    ultimately show ?thesis
      using sub \<open>listAndroidFilesRecursively ap listing = Inr fileList\<close> by blast
  qed
qed

lemma android_folder_stages:
  "no_pulls (snd (transferAndroidFolderToLocal e d ap lp listing))
   \<or> (\<exists>fileList t3 new. listAndroidFilesRecursively ap listing = Inr fileList
         \<and> snd (transferAndroidFolderToLocal e d ap lp listing) = t3 @ new
         \<and> (existsSync e lp \<or> MkdirSync lp \<in> set t3)
         \<and> staged e ap lp fileList t3 new)"
proof -
  have a: "no_pulls []" "no_pulls [MkdirSync lp]"
    "no_pulls [MkdirSync lp, SetStatus (ErrorCreatingFolderLocally m)]" for m
    by (simp_all add: no_pulls_def)
  from android_folder_cases [of e lp d ap listing] show ?thesis
  proof (elim disjE conjE exE)
    assume ex: "existsSync e lp"
      and eq: "transferAndroidFolderToLocal e d ap lp listing = scanAndPull e d ap lp listing []"
    from scanAndPull_stages [OF a(1), of e d ap lp listing] ex eq show ?thesis by auto
  next
    assume eq: "transferAndroidFolderToLocal e d ap lp listing
                  = scanAndPull e d ap lp listing [MkdirSync lp]"
    from scanAndPull_stages [OF a(2), of e d ap lp listing] eq show ?thesis by auto
  next
    fix m assume "transferAndroidFolderToLocal e d ap lp listing
           = (\<lparr>fr_success = 0, fr_errors = 1\<rparr>, [MkdirSync lp, SetStatus (ErrorCreatingFolderLocally m)])"
    with a(3) show ?thesis by simp
  qed
qed

lemma pull_position:
  assumes "evs = t3 @ new" "no_pulls t3" "j < length evs" "is_pull (evs ! j)"
  shows "length t3 \<le> j \<and> evs ! j \<in> set new \<and> set t3 \<subseteq> set (take j evs)"
proof -
  have ge: "length t3 \<le> j"
  proof (rule ccontr)
    assume "\<not> length t3 \<le> j"
    then have lt: "j < length t3" by simp
    with assms(1) have "evs ! j = t3 ! j" by (simp add: nth_append)
    with lt have "evs ! j \<in> set t3" by simp
    with assms(2,4) show False by (auto simp: no_pulls_def list_all_iff)
  qed
  with assms(1,3) have "evs ! j = new ! (j - length t3)" "j - length t3 < length new"
    by (auto simp: nth_append)
  then have "evs ! j \<in> set new" by simp
  moreover from ge assms(1) have "set t3 \<subseteq> set (take j evs)" by simp
  ultimately show ?thesis using ge by simp
qed

lemma no_pulls_nth: "no_pulls evs \<Longrightarrow> j < length evs \<Longrightarrow> \<not> is_pull (evs ! j)"
  by (auto simp: no_pulls_def list_all_iff)

lemma directories_ensured_before_pull:
  assumes scan: "listAndroidFilesRecursively ap listing = Inr fileList"
    and j: "j < length (snd (transferAndroidFolderToLocal e d ap lp listing))"
    and pull: "is_pull (snd (transferAndroidFolderToLocal e d ap lp listing) ! j)"
    and x: "x \<in> set (directories fileList)"
  shows "ensured_before e (snd (transferAndroidFolderToLocal e d ap lp listing)) j lp
         \<and> ensured_before e (snd (transferAndroidFolderToLocal e d ap lp listing)) j
              (local_target e ap lp (fst x))"
proof -
  let ?ev = "snd (transferAndroidFolderToLocal e d ap lp listing)"
  from android_folder_stages [of e d ap lp listing] no_pulls_nth [OF _ j] pull scan
  obtain t3 new where st: "?ev = t3 @ new" "existsSync e lp \<or> MkdirSync lp \<in> set t3"
      "staged e ap lp fileList t3 new" by auto
  from st(3) have np: "no_pulls t3" by (simp add: staged_def)
  from pull_position [OF st(1) np j pull] have sub: "set t3 \<subseteq> set (take j ?ev)" by simp
  from st(3) x have "existsSync e (local_target e ap lp (fst x))
        \<or> MkdirSync (local_target e ap lp (fst x)) \<in> set t3" by (simp add: staged_def)
  with st(2) sub show ?thesis by (auto simp: ensured_before_def)
qed

lemma files_parent:
  assumes "rnames_ok items" "listAndroidFilesRecursively p (Inr items) = Inr res" "f \<in> set (files res)"
  shows "parentPath (fst f) = listed_dir p \<or> parentPath (fst f) \<in> fst ` set (directories res)"
proof -
  from assms(2) have "scanItems p items no_results = Inr res"
    by (simp add: listAndroidFilesRecursively_def)
  from scanItems_scanned [OF assms(1) this, of "[]"]
  have "scanned (listed_dir p) [] (directories res) (files res)" by (auto simp: no_results_def)
  with assms(3) have "parentPath (fst f) \<in> set (listed_dir p # map fst (directories res))"
    by (auto simp: scanned_def list_all_iff)
  then show ?thesis by auto
qed

lemma pull_after_its_directory:
  assumes ok: "rnames_ok items"
    and j: "j < length (snd (transferAndroidFolderToLocal e d ap lp (Inr items)))"
    and pull: "snd (transferAndroidFolderToLocal e d ap lp (Inr items)) ! j = PullFile fpath target"
  shows "target = local_target e ap lp fpath
         \<and> ensured_before e (snd (transferAndroidFolderToLocal e d ap lp (Inr items))) j
              (if parentPath fpath = listed_dir ap then lp
               else local_target e ap lp (parentPath fpath))"
proof -
  let ?ev = "snd (transferAndroidFolderToLocal e d ap lp (Inr items))"
  from pull have ip: "is_pull (?ev ! j)" by simp
  from android_folder_stages [of e d ap lp "Inr items"] no_pulls_nth [OF _ j] ip
  obtain fileList t3 new where scan: "listAndroidFilesRecursively ap (Inr items) = Inr fileList"
    and st: "?ev = t3 @ new" "existsSync e lp \<or> MkdirSync lp \<in> set t3"
      "staged e ap lp fileList t3 new" by auto
  from st(3) have np: "no_pulls t3" by (simp add: staged_def)
  from pull_position [OF st(1) np j ip] have sub: "set t3 \<subseteq> set (take j ?ev)"
    and mem: "?ev ! j \<in> set new" by simp_all
  from st(3) mem ip obtain f where f: "f \<in> set (files fileList)"
    "?ev ! j = PullFile (fst f) (local_target e ap lp (fst f))" by (auto simp: staged_def)
  with pull have eq: "fpath = fst f" "target = local_target e ap lp fpath" by auto
  from files_parent [OF ok scan f(1)] eq(1)
  have par: "parentPath fpath = listed_dir ap \<or> parentPath fpath \<in> fst ` set (directories fileList)"
    by simp
  show ?thesis
  proof (cases "parentPath fpath = listed_dir ap")
    case True
    with st(2) sub eq(2) show ?thesis by (auto simp: ensured_before_def)
  next
    case False
    with par obtain x where x: "x \<in> set (directories fileList)" "parentPath fpath = fst x" by auto
    from st(3) x(1) have "existsSync e (local_target e ap lp (fst x))
        \<or> MkdirSync (local_target e ap lp (fst x)) \<in> set t3" by (simp add: staged_def)
    with False sub eq(2) x(2) show ?thesis by (auto simp: ensured_before_def)
  qed
qed

lemma file_then_dir_trace:
  "snd (transferLocalFolderToAndroid online_env ''emulator-5554'' ''/home/u/root'' ''/sdcard/root''
          (Inr local_file_then_dir))
     = [SetStatus (PreparingFiles 2 ''root''),
        CreateDirectory ''/sdcard/root'',
        PushFile ''/home/u/root/a.txt'' ''/sdcard/root/a.txt'',
        SetStatus (Transferring 1 2 ''a.txt''),
        CreateDirectory ''/sdcard/root/sub'',
        PushFile ''/home/u/root/sub/b.txt'' ''/sdcard/root/sub/b.txt'',
        SetStatus (Transferring 2 2 ''b.txt'')]"
  by (simp add: local_file_then_dir_def transferLocalFolderToAndroid_def online_env_def app_env_def
      online_client_def push_file_handler_def create_directory_handler_def simple_join_def simple_basename_def
      emit_def pushOne_def Let_def)

lemma nested_ops:
  "android_ops (snd (transferLocalFolderToAndroid online_env ''emulator-5554'' ''/home/u/root''
        ''/sdcard/root'' (Inr local_nested)))
     = [Create ''/sdcard/root'', Create ''/sdcard/root/a'', Create ''/sdcard/root/a/b'',
        Put ''/sdcard/root/a/b/c.txt'']"
  by (simp add: local_nested_def transferLocalFolderToAndroid_def online_env_def app_env_def
      online_client_def push_file_handler_def create_directory_handler_def simple_join_def simple_basename_def
      emit_def pushOne_def Let_def android_ops_def)

lemma nested_scan:
  "listAndroidFilesRecursively ''/sdcard/root'' (Inr remote_nested)
     = Inr \<lparr>files = [(''/sdcard/root/a/b/c.txt'', ''c.txt'', 7)],
            directories = [(''/sdcard/root/a'', ''a''), (''/sdcard/root/a/b'', ''b'')]\<rparr>"
  by (simp add: listAndroidFilesRecursively_def remote_nested_def no_results_def isDir_def
      itemPath_of_def endsWith_slash_def Let_def)

lemma nested_pull_trace:
  "snd (transferAndroidFolderToLocal online_env ''emulator-5554'' ''/sdcard/root'' ''/home/u/root''
          (Inr remote_nested))
     = [MkdirSync ''/home/u/root'', SetStatus ScanningAndroid, SetStatus (PreparingFromAndroid 1),
        MkdirSync ''/home/u/root/a'', MkdirSync ''/home/u/root/a/b'',
        PullFile ''/sdcard/root/a/b/c.txt'' ''/home/u/root/a/b/c.txt'',
        SetStatus (Transferring 1 1 ''c.txt'')]"
  by (simp add: nested_scan transferAndroidFolderToLocal_def scanAndPull_def online_env_def app_env_def
      online_client_def pull_file_handler_def simple_join_def emit_def pullOne_def Let_def)

text \<open>
  C3 (as amended).  In a transfer to local every directory creation is attempted before
  any file copy: after the leading \<open>mkdirSync\<close> calls the transfer acts on the
  destination by pulls only, and when a file is pulled, the destination folder and the
  local counterpart of every directory of the plan exist already or have had their
  \<open>mkdirSync\<close> earlier in the trace; so has the local counterpart of the directory the
  pulled file lies in.  In a transfer to Android creations and copies alternate in one
  depth-first walk, and each file's push is attempted only after the
  \<open>create-directory\<close> of the directory the file goes into.
\<close>

theorem copies_follow_directory_creation:
  "creations_then_pulls (snd (transferAndroidFolderToLocal e d ap lp listing))
   \<and> (listAndroidFilesRecursively ap listing = Inr fileList
       \<and> j < length (snd (transferAndroidFolderToLocal e d ap lp listing))
       \<and> is_pull (snd (transferAndroidFolderToLocal e d ap lp listing) ! j)
       \<and> x \<in> set (directories fileList)
       \<longrightarrow> ensured_before e (snd (transferAndroidFolderToLocal e d ap lp listing)) j lp
           \<and> ensured_before e (snd (transferAndroidFolderToLocal e d ap lp listing)) j
                (local_target e ap lp (fst x)))
   \<and> (rnames_ok ritems
       \<and> k < length (snd (transferAndroidFolderToLocal e d ap lp (Inr ritems)))
       \<and> snd (transferAndroidFolderToLocal e d ap lp (Inr ritems)) ! k = PullFile fpath target
       \<longrightarrow> target = local_target e ap lp fpath
           \<and> ensured_before e (snd (transferAndroidFolderToLocal e d ap lp (Inr ritems))) k
                (if parentPath fpath = listed_dir ap then lp
                 else local_target e ap lp (parentPath fpath)))
   \<and> (lnames_ok items
       \<and> n < length (android_ops (snd (transferLocalFolderToAndroid e' d' lp' ap' (Inr items))))
       \<and> android_ops (snd (transferLocalFolderToAndroid e' d' lp' ap' (Inr items))) ! n = Put p
       \<longrightarrow> (\<exists>i<n. android_ops (snd (transferLocalFolderToAndroid e' d' lp' ap' (Inr items))) ! i
                     = Create (parentPath p)))"
  using android_folder_creations_first [of e d ap lp listing]
    directories_ensured_before_pull [of ap listing fileList j e d lp x]
    pull_after_its_directory [of ritems k e d ap lp fpath target]
    local_copy_after_parent [of items n e' d' lp' ap' p]
  by - (intro conjI impI; (elim conjE)?; blast)

theorem copies_follow_directory_creation_witness:
  "listAndroidFilesRecursively ''/sdcard/root'' (Inr remote_nested)
       = Inr \<lparr>files = [(''/sdcard/root/a/b/c.txt'', ''c.txt'', 7)],
              directories = [(''/sdcard/root/a'', ''a''), (''/sdcard/root/a/b'', ''b'')]\<rparr>
   \<and> rnames_ok remote_nested
   \<and> snd (transferAndroidFolderToLocal online_env ''emulator-5554'' ''/sdcard/root'' ''/home/u/root''
          (Inr remote_nested)) ! 5 = PullFile ''/sdcard/root/a/b/c.txt'' ''/home/u/root/a/b/c.txt''
   \<and> (''/sdcard/root/a'', ''a'')
        \<in> set (directories \<lparr>files = [(''/sdcard/root/a/b/c.txt'', ''c.txt'', 7)],
              directories = [(''/sdcard/root/a'', ''a''), (''/sdcard/root/a/b'', ''b'')]\<rparr>)
   \<and> ensured_before online_env
        (snd (transferAndroidFolderToLocal online_env ''emulator-5554'' ''/sdcard/root'' ''/home/u/root''
          (Inr remote_nested))) 5 ''/home/u/root''
   \<and> ensured_before online_env
        (snd (transferAndroidFolderToLocal online_env ''emulator-5554'' ''/sdcard/root'' ''/home/u/root''
          (Inr remote_nested))) 5 ''/home/u/root/a''
   \<and> ensured_before online_env
        (snd (transferAndroidFolderToLocal online_env ''emulator-5554'' ''/sdcard/root'' ''/home/u/root''
          (Inr remote_nested))) 5 ''/home/u/root/a/b''
   \<and> creations_then_pulls (snd (transferAndroidFolderToLocal online_env ''emulator-5554''
        ''/sdcard/root'' ''/home/u/root'' (Inr remote_nested)))
   \<and> lnames_ok local_file_then_dir
   \<and> android_ops (snd (transferLocalFolderToAndroid online_env ''emulator-5554'' ''/home/u/root''
        ''/sdcard/root'' (Inr local_file_then_dir))) ! 3 = Put ''/sdcard/root/sub/b.txt''
   \<and> (\<exists>i<3. android_ops (snd (transferLocalFolderToAndroid online_env ''emulator-5554''
        ''/home/u/root'' ''/sdcard/root'' (Inr local_file_then_dir))) ! i = Create ''/sdcard/root/sub'')"
proof -
  have ok: "lnames_ok local_file_then_dir" "rnames_ok remote_nested"
    by (simp_all add: local_file_then_dir_def remote_nested_def)
  have ops: "android_ops (snd (transferLocalFolderToAndroid online_env ''emulator-5554'' ''/home/u/root''
        ''/sdcard/root'' (Inr local_file_then_dir)))
      = [Create ''/sdcard/root'', Put ''/sdcard/root/a.txt'', Create ''/sdcard/root/sub'',
         Put ''/sdcard/root/sub/b.txt'']"
    by (simp add: file_then_dir_trace android_ops_def)
  have pp: "parentPath ''/sdcard/root/sub/b.txt'' = ''/sdcard/root/sub''"
    "parentPath ''/sdcard/root/a/b/c.txt'' = ''/sdcard/root/a/b''"
    by (simp_all add: parentPath_def)
  have tg: "local_target online_env ''/sdcard/root'' ''/home/u/root'' ''/sdcard/root/a'' = ''/home/u/root/a''"
    "local_target online_env ''/sdcard/root'' ''/home/u/root'' ''/sdcard/root/a/b'' = ''/home/u/root/a/b''"
    "local_target online_env ''/sdcard/root'' ''/home/u/root'' ''/sdcard/root/a/b/c.txt''
       = ''/home/u/root/a/b/c.txt''"
    by (simp_all add: local_target_def online_env_def app_env_def simple_join_def)
  have ld: "listed_dir ''/sdcard/root'' = ''/sdcard/root''"
    by (simp add: listed_dir_def endsWith_slash_def)
  show ?thesis
    using copies_follow_directory_creation [where e = online_env and d = "''emulator-5554''"
        and ap = "''/sdcard/root''" and lp = "''/home/u/root''" and listing = "Inr remote_nested"
        and fileList = "\<lparr>files = [(''/sdcard/root/a/b/c.txt'', ''c.txt'', 7)],
              directories = [(''/sdcard/root/a'', ''a''), (''/sdcard/root/a/b'', ''b'')]\<rparr>"
        and j = 5 and x = "(''/sdcard/root/a'', ''a'')" and ritems = remote_nested and k = 5
        and fpath = "''/sdcard/root/a/b/c.txt''" and target = "''/home/u/root/a/b/c.txt''"
        and items = local_file_then_dir and n = 3 and e' = online_env and d' = "''emulator-5554''"
        and lp' = "''/home/u/root''" and ap' = "''/sdcard/root''" and p = "''/sdcard/root/sub/b.txt''"]
      ok ops pp tg ld nested_scan nested_pull_trace
    by simp
qed

text \<open>
  C3 as stated fails for the transfer to Android: \<open>a.txt\<close> is pushed before the
  directory \<open>sub\<close> is created.
\<close>

theorem file_copied_before_later_directory:
  "snd (transferLocalFolderToAndroid online_env ''emulator-5554'' ''/home/u/root'' ''/sdcard/root''
          (Inr local_file_then_dir))
     = [SetStatus (PreparingFiles 2 ''root''),
        CreateDirectory ''/sdcard/root'',
        PushFile ''/home/u/root/a.txt'' ''/sdcard/root/a.txt'',
        SetStatus (Transferring 1 2 ''a.txt''),
        CreateDirectory ''/sdcard/root/sub'',
        PushFile ''/home/u/root/sub/b.txt'' ''/sdcard/root/sub/b.txt'',
        SetStatus (Transferring 2 2 ''b.txt'')]"
  by (rule file_then_dir_trace)

text \<open>
  C4.  Parent before child: in the processing order of a transfer to Android, and in the
  plan that the scan of a remote tree returns (all \<open>directories\<close>, then all \<open>files\<close>),
  every directory that the path of an entry lies inside, at any depth, from the root of
  the transfer down, has a creation entry that precedes the entry.  On the way to
  Android the root is the destination folder itself, whose creation comes first; the
  plan of a scan starts below the scanned folder.  Entry names hold no separator (and
  remote names are not empty), as the names of directory entries do.
\<close>

theorem parent_before_child:
  "(lnames_ok items
     \<and> j < length (android_ops (snd (transferLocalFolderToAndroid e d lp ap (Inr items))))
     \<and> inside dir (op_path (android_ops (snd (transferLocalFolderToAndroid e d lp ap (Inr items))) ! j))
     \<and> length ap \<le> length dir
     \<longrightarrow> (\<exists>i<j. android_ops (snd (transferLocalFolderToAndroid e d lp ap (Inr items))) ! i = Create dir))
   \<and> (rnames_ok ritems \<and> listAndroidFilesRecursively rp (Inr ritems) = Inr res
     \<and> j' < length (plan_ops res)
     \<and> inside dir' (op_path (plan_ops res ! j'))
     \<and> length (listed_dir rp) < length dir'
     \<longrightarrow> (\<exists>i<j'. plan_ops res ! i = Create dir'))"
  using local_ancestors_first [of items j e d lp ap dir]
    remote_ancestors_first [of ritems rp res j' dir']
  by blast

theorem parent_before_child_witness:
  "lnames_ok local_nested \<and> rnames_ok remote_nested
   \<and> android_ops (snd (transferLocalFolderToAndroid online_env ''emulator-5554'' ''/home/u/root''
        ''/sdcard/root'' (Inr local_nested))) ! 3 = Put ''/sdcard/root/a/b/c.txt''
   \<and> inside ''/sdcard/root/a'' ''/sdcard/root/a/b/c.txt''
   \<and> length ''/sdcard/root'' \<le> length ''/sdcard/root/a''
   \<and> (\<exists>i<3. android_ops (snd (transferLocalFolderToAndroid online_env ''emulator-5554''
        ''/home/u/root'' ''/sdcard/root'' (Inr local_nested))) ! i = Create ''/sdcard/root/a'')
   \<and> listAndroidFilesRecursively ''/sdcard/root'' (Inr remote_nested)
       = Inr \<lparr>files = [(''/sdcard/root/a/b/c.txt'', ''c.txt'', 7)],
              directories = [(''/sdcard/root/a'', ''a''), (''/sdcard/root/a/b'', ''b'')]\<rparr>
   \<and> length (listed_dir ''/sdcard/root'') < length ''/sdcard/root/a''
   \<and> (\<exists>i<2. plan_ops \<lparr>files = [(''/sdcard/root/a/b/c.txt'', ''c.txt'', 7)],
              directories = [(''/sdcard/root/a'', ''a''), (''/sdcard/root/a/b'', ''b'')]\<rparr> ! i
            = Create ''/sdcard/root/a'')"
proof -
  have ok: "lnames_ok local_nested" "rnames_ok remote_nested"
    by (simp_all add: local_nested_def remote_nested_def)
  have ins: "inside ''/sdcard/root/a'' ''/sdcard/root/a/b/c.txt''"
    by (simp add: inside_def)
  have len: "length ''/sdcard/root'' \<le> length ''/sdcard/root/a''"
    "length (listed_dir ''/sdcard/root'') < length ''/sdcard/root/a''"
    by (simp_all add: listed_dir_def endsWith_slash_def)
  have plan: "plan_ops \<lparr>files = [(''/sdcard/root/a/b/c.txt'', ''c.txt'', 7)],
              directories = [(''/sdcard/root/a'', ''a''), (''/sdcard/root/a/b'', ''b'')]\<rparr>
       = [Create ''/sdcard/root/a'', Create ''/sdcard/root/a/b'', Put ''/sdcard/root/a/b/c.txt'']"
    by (simp add: plan_ops_def)
  show ?thesis
    using parent_before_child [where items = local_nested and j = 3 and e = online_env
        and d = "''emulator-5554''" and lp = "''/home/u/root''" and ap = "''/sdcard/root''"
        and dir = "''/sdcard/root/a''" and ritems = remote_nested and rp = "''/sdcard/root''"
        and res = "\<lparr>files = [(''/sdcard/root/a/b/c.txt'', ''c.txt'', 7)],
              directories = [(''/sdcard/root/a'', ''a''), (''/sdcard/root/a/b'', ''b'')]\<rparr>"
        and j' = 2 and dir' = "''/sdcard/root/a''"]
      ok ins len nested_ops nested_scan plan
    by simp
qed

end
